theory Spec2Isabelle
  imports Complex_Main
begin

section \<open>Characters and strings\<close>

text \<open>
  Texts are Python \<open>str\<close> values, modelled as HOL strings: sequences of the characters
  with code points below 256. On these characters the classification and the case mapping
  are Python's. \<open>\d\<close> is one of the ten decimal digits. \<open>\s\<close> (and \<open>str.isspace\<close>,
  which \<open>str.strip\<close> uses) is one of the code points 0x09..0x0D, 0x1C..0x20, 0x85 and
  0xA0. \<open>\w\<close> is an alphanumeric character (\<open>str.isalnum\<close>) or the underscore: the
  ASCII letters and digits, the letters 0xC0..0xFF other than the signs 0xD7 and 0xF7, and
  0xAA, 0xB2, 0xB3, 0xB5, 0xB9, 0xBA, 0xBC, 0xBD, 0xBE. \<open>str.lower\<close> maps \<open>A\<close>..\<open>Z\<close> to
  \<open>a\<close>..\<open>z\<close> and the capital letters 0xC0..0xDE (without 0xD7) to the letters 32
  code points above them, and leaves every other character as it is.
\<close>

definition upper_letters :: string where
  "upper_letters = ''ABCDEFGHIJKLMNOPQRSTUVWXYZ''"

definition lower_letters :: string where
  "lower_letters = ''abcdefghijklmnopqrstuvwxyz''"

definition digit_chars :: string where
  "digit_chars = ''0123456789''"

definition space_chars :: string where
  "space_chars = [CHR '' '', CHR 0x09, CHR 0x0A, CHR 0x0B, CHR 0x0C, CHR 0x0D,
                  CHR 0x1C, CHR 0x1D, CHR 0x1E, CHR 0x1F, CHR 0x85, CHR 0xA0]"

text \<open>The capital and the small letters between 0xC0 and 0xFE, in the same order.\<close>

definition latin1_upper :: string where
  "latin1_upper =
     [CHR 0xC0, CHR 0xC1, CHR 0xC2, CHR 0xC3, CHR 0xC4, CHR 0xC5, CHR 0xC6, CHR 0xC7,
      CHR 0xC8, CHR 0xC9, CHR 0xCA, CHR 0xCB, CHR 0xCC, CHR 0xCD, CHR 0xCE, CHR 0xCF,
      CHR 0xD0, CHR 0xD1, CHR 0xD2, CHR 0xD3, CHR 0xD4, CHR 0xD5, CHR 0xD6, CHR 0xD8,
      CHR 0xD9, CHR 0xDA, CHR 0xDB, CHR 0xDC, CHR 0xDD, CHR 0xDE]"

definition latin1_lower :: string where
  "latin1_lower =
     [CHR 0xE0, CHR 0xE1, CHR 0xE2, CHR 0xE3, CHR 0xE4, CHR 0xE5, CHR 0xE6, CHR 0xE7,
      CHR 0xE8, CHR 0xE9, CHR 0xEA, CHR 0xEB, CHR 0xEC, CHR 0xED, CHR 0xEE, CHR 0xEF,
      CHR 0xF0, CHR 0xF1, CHR 0xF2, CHR 0xF3, CHR 0xF4, CHR 0xF5, CHR 0xF6, CHR 0xF8,
      CHR 0xF9, CHR 0xFA, CHR 0xFB, CHR 0xFC, CHR 0xFD, CHR 0xFE]"

text \<open>The other alphanumeric characters between 0x80 and 0xFF; they have no case.\<close>

definition latin1_alnum :: string where
  "latin1_alnum =
     [CHR 0xAA, CHR 0xB2, CHR 0xB3, CHR 0xB5, CHR 0xB9, CHR 0xBA, CHR 0xBC, CHR 0xBD,
      CHR 0xBE, CHR 0xDF, CHR 0xFF]"

text \<open>The ranges \<open>A-Z\<close> and \<open>a-z\<close> of a bracketed set.\<close>

definition is_upper :: "char \<Rightarrow> bool" where
  "is_upper c = (c \<in> set upper_letters)"

definition is_lower :: "char \<Rightarrow> bool" where
  "is_lower c = (c \<in> set lower_letters)"

definition is_digit :: "char \<Rightarrow> bool" where
  "is_digit c = (c \<in> set digit_chars)"

definition is_space :: "char \<Rightarrow> bool" where
  "is_space c = (c \<in> set space_chars)"

definition is_word :: "char \<Rightarrow> bool" where
  "is_word c = (is_upper c \<or> is_lower c \<or> is_digit c \<or> c = CHR ''_'' \<or>
                c \<in> set latin1_upper \<or> c \<in> set latin1_lower \<or> c \<in> set latin1_alnum)"

definition to_lower :: "char \<Rightarrow> char" where
  "to_lower c =
     (case map_of (zip (upper_letters @ latin1_upper) (lower_letters @ latin1_lower)) c of
        None \<Rightarrow> c
      | Some d \<Rightarrow> d)"

definition str_lower :: "string \<Rightarrow> string" where
  "str_lower s = map to_lower s"

section \<open>Regular expressions: the fragment of Python's \<open>re\<close> that the analyzers use\<close>

text \<open>
  The patterns of the source are written in this abstract syntax. \<open>Rep r lo hi\<close> is the
  greedy repetition \<open>r{lo,hi}\<close> (\<open>hi = None\<close> for \<open>*\<close> and \<open>+\<close>), \<open>Group n r\<close> the
  \<open>n\<close>-th capturing group, \<open>WordB\<close> the assertion \<open>\b\<close>; a non-capturing group is its
  body. The items of a bracketed set are single characters, the ranges \<open>A-Z\<close> and
  \<open>a-z\<close>, and \<open>\s\<close>. \<open>RepLazy r lo hi\<close> is the lazy repetition \<open>r{lo,hi}?\<close>,
  \<open>Ahead r\<close> and \<open>NotAhead r\<close> are the assertions \<open>(?=r)\<close> and \<open>(?!r)\<close>,
  \<open>NotBehind r\<close> is \<open>(?<!r)\<close> for a pattern \<open>r\<close> of one character, and \<open>Bol\<close>, \<open>Eol\<close>
  and \<open>EndZ\<close> are \<open>^\<close>, \<open>$\<close> (both without \<open>re.MULTILINE\<close>) and \<open>\Z\<close>.
\<close>

datatype cset_item = CChar char | CUpper | CLower | CSpace

datatype regex =
    Eps
  | Lit char
  | Dot
  | Digit
  | Space
  | WordCh
  | CSet "cset_item list"
  | NSet "cset_item list"
  | Seq regex regex
  | Alt regex regex
  | Rep regex nat "nat option"
  | Group nat regex
  | WordB
  | RepLazy regex nat "nat option"
  | Ahead regex
  | NotAhead regex
  | NotBehind regex
  | Bol
  | Eol
  | EndZ

text \<open>\<open>ic\<close> is the flag \<open>re.IGNORECASE\<close>.\<close>

definition char_eq :: "bool \<Rightarrow> char \<Rightarrow> char \<Rightarrow> bool" where
  "char_eq ic c x = (if ic then to_lower c = to_lower x else c = x)"

fun item_matches :: "bool \<Rightarrow> cset_item \<Rightarrow> char \<Rightarrow> bool" where
  "item_matches ic (CChar c) x = char_eq ic c x"
| "item_matches ic CUpper x = (if ic then is_upper x \<or> is_lower x else is_upper x)"
| "item_matches ic CLower x = (if ic then is_upper x \<or> is_lower x else is_lower x)"
| "item_matches ic CSpace x = is_space x"

definition in_cset :: "bool \<Rightarrow> cset_item list \<Rightarrow> char \<Rightarrow> bool" where
  "in_cset ic items x = list_ex (\<lambda>i. item_matches ic i x) items"

text \<open>
  A matcher state is the text before the current position (reversed), the text from the
  current position on, and the groups captured so far (latest first).
\<close>

type_synonym mstate = "string \<times> string \<times> (nat \<times> string) list"

definition one_char :: "(char \<Rightarrow> bool) \<Rightarrow> mstate \<Rightarrow> mstate list" where
  "one_char P st = (case st of (p, s, g) \<Rightarrow>
     (case s of [] \<Rightarrow> [] | x # xs \<Rightarrow> if P x then [(x # p, xs, g)] else []))"

definition word_before :: "string \<Rightarrow> bool" where
  "word_before p = (case p of [] \<Rightarrow> False | c # _ \<Rightarrow> is_word c)"

definition word_after :: "string \<Rightarrow> bool" where
  "word_after s = (case s of [] \<Rightarrow> False | c # _ \<Rightarrow> is_word c)"

definition at_boundary :: "mstate \<Rightarrow> bool" where
  "at_boundary st = (case st of (p, s, g) \<Rightarrow> word_before p \<noteq> word_after s)"

text \<open>The assertions on the position: the start of the text, its end, and \<open>$\<close>, which
  also holds before a newline that ends the text.\<close>

definition at_start :: "mstate \<Rightarrow> bool" where
  "at_start st = (case st of (p, s, g) \<Rightarrow> p = [])"

definition at_end :: "mstate \<Rightarrow> bool" where
  "at_end st = (case st of (p, s, g) \<Rightarrow> s = [])"

definition at_eol :: "mstate \<Rightarrow> bool" where
  "at_eol st = (case st of (p, s, g) \<Rightarrow> s = [] \<or> s = [CHR 0x0A])"

text \<open>One step back, for the look-behind assertion.\<close>

definition step_back :: "mstate \<Rightarrow> mstate option" where
  "step_back st = (case st of (p, s, g) \<Rightarrow>
     (case p of [] \<Rightarrow> None | c # p' \<Rightarrow> Some (p', c # s, g)))"

definition capture :: "nat \<Rightarrow> mstate \<Rightarrow> mstate \<Rightarrow> mstate" where
  "capture n st0 st = (case st0 of (p0, s0, g0) \<Rightarrow> (case st of (p, s, g) \<Rightarrow>
     (p, s, (n, rev (take (length p - length p0) p)) # g)))"

text \<open>
  The matcher returns every way the pattern can match at the current position, in the
  order in which a backtracking engine tries them; the engine's match is the first one.
  \<open>rep_req\<close> runs the mandatory iterations of a repetition, \<open>rep_opt\<close> up to \<open>n\<close>
  optional ones, longest first, and \<open>rep_lazy\<close> up to \<open>n\<close> optional ones, shortest first.
\<close>

fun rep_opt :: "nat \<Rightarrow> (mstate \<Rightarrow> mstate list) \<Rightarrow> mstate \<Rightarrow> mstate list" where
  "rep_opt 0 step st = [st]"
| "rep_opt (Suc n) step st = concat (map (rep_opt n step) (step st)) @ [st]"

fun rep_req :: "nat \<Rightarrow> (mstate \<Rightarrow> mstate list) \<Rightarrow> (mstate \<Rightarrow> mstate list) \<Rightarrow>
    mstate \<Rightarrow> mstate list" where
  "rep_req 0 step k st = k st"
| "rep_req (Suc n) step k st = concat (map (rep_req n step k) (step st))"

fun rep_lazy :: "nat \<Rightarrow> (mstate \<Rightarrow> mstate list) \<Rightarrow> mstate \<Rightarrow> mstate list" where
  "rep_lazy 0 step st = [st]"
| "rep_lazy (Suc n) step st = st # concat (map (rep_lazy n step) (step st))"

definition rep_bound :: "nat \<Rightarrow> nat option \<Rightarrow> mstate \<Rightarrow> nat" where
  "rep_bound lo hi st = (case hi of None \<Rightarrow> length (fst (snd st)) | Some h \<Rightarrow> h - lo)"

fun rmatch :: "bool \<Rightarrow> regex \<Rightarrow> mstate \<Rightarrow> mstate list" where
  "rmatch ic Eps st = [st]"
| "rmatch ic (Lit c) st = one_char (char_eq ic c) st"
| "rmatch ic Dot st = one_char (\<lambda>x. x \<noteq> CHR 0x0A) st"
| "rmatch ic Digit st = one_char is_digit st"
| "rmatch ic Space st = one_char is_space st"
| "rmatch ic WordCh st = one_char is_word st"
| "rmatch ic (CSet items) st = one_char (in_cset ic items) st"
| "rmatch ic (NSet items) st = one_char (\<lambda>x. \<not> in_cset ic items x) st"
| "rmatch ic (Seq a b) st = concat (map (\<lambda>st'. rmatch ic b st') (rmatch ic a st))"
| "rmatch ic (Alt a b) st = rmatch ic a st @ rmatch ic b st"
| "rmatch ic (Rep a lo hi) st =
     rep_req lo (\<lambda>st'. rmatch ic a st')
       (\<lambda>st'. rep_opt (rep_bound lo hi st') (\<lambda>st''. rmatch ic a st'') st') st"
| "rmatch ic (Group n a) st = map (capture n st) (rmatch ic a st)"
| "rmatch ic WordB st = (if at_boundary st then [st] else [])"
| "rmatch ic (RepLazy a lo hi) st =
     rep_req lo (\<lambda>st'. rmatch ic a st')
       (\<lambda>st'. rep_lazy (rep_bound lo hi st') (\<lambda>st''. rmatch ic a st'') st') st"
| "rmatch ic (Ahead a) st = (if rmatch ic a st = [] then [] else [st])"
| "rmatch ic (NotAhead a) st = (if rmatch ic a st = [] then [st] else [])"
| "rmatch ic (NotBehind a) st =
     (case step_back st of
        None \<Rightarrow> [st]
      | Some st0 \<Rightarrow>
          if list_ex (\<lambda>st'. fst (snd st') = fst (snd st)) (rmatch ic a st0) then [] else [st])"
| "rmatch ic Bol st = (if at_start st then [st] else [])"
| "rmatch ic Eol st = (if at_eol st then [st] else [])"
| "rmatch ic EndZ st = (if at_end st then [st] else [])"

section \<open>Searching: \<open>re.search\<close>, \<open>re.finditer\<close>, \<open>re.findall\<close>\<close>

text \<open>
  A match object: \<open>m_start\<close> and \<open>m_end\<close> are \<open>match.start()\<close> and \<open>match.end()\<close>,
  \<open>m_text\<close> is \<open>match.group(0)\<close>, and \<open>m_groups\<close> holds the captured groups.
\<close>

record rematch =
  m_start :: nat
  m_end :: nat
  m_text :: string
  m_groups :: "(nat \<times> string) list"

definition mk_match :: "string \<Rightarrow> mstate \<Rightarrow> rematch" where
  "mk_match p0 st = (case st of (p, s, g) \<Rightarrow>
     \<lparr> m_start = length p0, m_end = length p,
       m_text = rev (take (length p - length p0) p), m_groups = g \<rparr>)"

text \<open>\<open>match.group(n)\<close>: \<open>None\<close> when the group did not take part in the match.\<close>

definition group :: "rematch \<Rightarrow> nat \<Rightarrow> string option" where
  "group m n = map_of (m_groups m) n"

text \<open>
  The engine's match at one position is the first alternative of the matcher. After an
  empty match the scanner sets \<open>must_advance\<close>: at the position where the search starts,
  an alternative that ends where it began is then rejected.
\<close>

definition match_here :: "bool \<Rightarrow> regex \<Rightarrow> bool \<Rightarrow> string \<Rightarrow> string \<Rightarrow> mstate option" where
  "match_here ic r adv p s =
     (case filter (\<lambda>st. if adv then length (fst (snd st)) < length s else True)
             (rmatch ic r (p, s, [])) of
        [] \<Rightarrow> None
      | st # _ \<Rightarrow> Some st)"

text \<open>The search tries the start positions from left to right.\<close>

fun search_from :: "bool \<Rightarrow> regex \<Rightarrow> bool \<Rightarrow> string \<Rightarrow> string \<Rightarrow> (string \<times> mstate) option" where
  "search_from ic r adv p [] =
     (case match_here ic r adv p [] of None \<Rightarrow> None | Some st \<Rightarrow> Some (p, st))"
| "search_from ic r adv p (x # xs) =
     (case match_here ic r adv p (x # xs) of
        None \<Rightarrow> search_from ic r False (x # p) xs
      | Some st \<Rightarrow> Some (p, st))"

definition re_search :: "bool \<Rightarrow> regex \<Rightarrow> string \<Rightarrow> rematch option" where
  "re_search ic r text =
     (case search_from ic r False [] text of
        None \<Rightarrow> None
      | Some (p0, st) \<Rightarrow> Some (mk_match p0 st))"

text \<open>Every alternative of the matcher consumes a prefix of the remaining text.\<close>

definition consumes :: "mstate \<Rightarrow> mstate \<Rightarrow> bool" where
  "consumes st st' = (\<exists>w. fst st' = rev w @ fst st \<and> fst (snd st) = w @ fst (snd st'))"

lemma consumes_refl: "consumes st st"
  by (simp add: consumes_def)

lemma consumes_trans: "consumes a b \<Longrightarrow> consumes b c \<Longrightarrow> consumes a c"
  unfolding consumes_def by (metis append.assoc rev_append)

lemma consumes_length: "consumes st st' \<Longrightarrow> length (fst (snd st')) \<le> length (fst (snd st))"
  by (auto simp: consumes_def)

lemma consumes_same:
  "consumes st st' \<Longrightarrow> length (fst (snd st')) = length (fst (snd st)) \<Longrightarrow> fst st' = fst st"
  by (auto simp: consumes_def)

lemma one_char_consumes: "st' \<in> set (one_char P st) \<Longrightarrow> consumes st st'"
  by (auto simp: one_char_def consumes_def split: prod.splits list.splits if_splits)

lemma rep_opt_consumes:
  assumes "\<And>a b. b \<in> set (step a) \<Longrightarrow> consumes a b"
  shows "st' \<in> set (rep_opt n step st) \<Longrightarrow> consumes st st'"
proof (induction n arbitrary: st)
  case 0
  then show ?case by (simp add: consumes_refl)
next
  case (Suc n)
  from Suc.prems have "st' = st \<or> (\<exists>mid\<in>set (step st). st' \<in> set (rep_opt n step mid))"
    by auto
  then show ?case using assms Suc.IH by (blast intro: consumes_refl consumes_trans)
qed

lemma rep_lazy_consumes:
  assumes "\<And>a b. b \<in> set (step a) \<Longrightarrow> consumes a b"
  shows "st' \<in> set (rep_lazy n step st) \<Longrightarrow> consumes st st'"
proof (induction n arbitrary: st)
  case 0
  then show ?case by (simp add: consumes_refl)
next
  case (Suc n)
  from Suc.prems have "st' = st \<or> (\<exists>mid\<in>set (step st). st' \<in> set (rep_lazy n step mid))"
    by auto
  then show ?case using assms Suc.IH by (blast intro: consumes_refl consumes_trans)
qed

lemma rep_req_consumes:
  assumes "\<And>a b. b \<in> set (step a) \<Longrightarrow> consumes a b"
    and "\<And>a b. b \<in> set (k a) \<Longrightarrow> consumes a b"
  shows "st' \<in> set (rep_req n step k st) \<Longrightarrow> consumes st st'"
proof (induction n arbitrary: st)
  case 0
  then show ?case using assms(2) by simp
next
  case (Suc n)
  from Suc.prems have "\<exists>mid\<in>set (step st). st' \<in> set (rep_req n step k mid)"
    by auto
  then show ?case using assms(1) Suc.IH by (blast intro: consumes_trans)
qed

lemma capture_consumes: "consumes st st' \<Longrightarrow> consumes st (capture n st st')"
  by (auto simp: consumes_def capture_def split: prod.splits)

lemma rmatch_consumes: "st' \<in> set (rmatch ic r st) \<Longrightarrow> consumes st st'"
proof (induction r arbitrary: st st')
  case (Seq a b)
  from Seq.prems have "\<exists>mid\<in>set (rmatch ic a st). st' \<in> set (rmatch ic b mid)"
    by auto
  then show ?case using Seq.IH by (blast intro: consumes_trans)
next
  case (Rep a lo hi)
  have step: "\<And>x y. y \<in> set (rmatch ic a x) \<Longrightarrow> consumes x y"
    using Rep.IH by blast
  have opt: "\<And>x y. y \<in> set (rep_opt (rep_bound lo hi x) (\<lambda>z. rmatch ic a z) x) \<Longrightarrow> consumes x y"
    using rep_opt_consumes[of "\<lambda>z. rmatch ic a z"] step by blast
  from Rep.prems show ?case
    using rep_req_consumes[of "\<lambda>z. rmatch ic a z"
        "\<lambda>x. rep_opt (rep_bound lo hi x) (\<lambda>z. rmatch ic a z) x" st' lo st] step opt
    by simp
next
  case (Group n a)
  from Group.prems obtain mid where "mid \<in> set (rmatch ic a st)" "st' = capture n st mid"
    by auto
  then show ?case using Group.IH by (blast intro: capture_consumes)
next
  case (RepLazy a lo hi)
  have step: "\<And>x y. y \<in> set (rmatch ic a x) \<Longrightarrow> consumes x y"
    using RepLazy.IH by blast
  have opt: "\<And>x y. y \<in> set (rep_lazy (rep_bound lo hi x) (\<lambda>z. rmatch ic a z) x) \<Longrightarrow> consumes x y"
    using rep_lazy_consumes[of "\<lambda>z. rmatch ic a z"] step by blast
  from RepLazy.prems show ?case
    using rep_req_consumes[of "\<lambda>z. rmatch ic a z"
        "\<lambda>x. rep_lazy (rep_bound lo hi x) (\<lambda>z. rmatch ic a z) x" st' lo st] step opt
    by simp
next
  case (NotBehind a)
  then show ?case by (auto simp: consumes_refl split: option.splits if_splits)
qed (auto simp: consumes_refl one_char_consumes split: if_splits)

lemma match_here_Some:
  assumes "match_here ic r adv p s = Some st"
  shows "st \<in> set (rmatch ic r (p, s, []))"
    and "consumes (p, s, []) st"
    and "adv \<Longrightarrow> length (fst (snd st)) < length s"
proof -
  let ?f = "\<lambda>st. if adv then length (fst (snd st)) < length s else True"
  from assms obtain rest where "filter ?f (rmatch ic r (p, s, [])) = st # rest"
    by (auto simp: match_here_def split: list.splits)
  then have "st \<in> set (filter ?f (rmatch ic r (p, s, [])))" by simp
  then have mem: "st \<in> set (rmatch ic r (p, s, []))" and f: "?f st" by auto
  show "st \<in> set (rmatch ic r (p, s, []))" by (rule mem)
  show "consumes (p, s, []) st" using mem by (rule rmatch_consumes)
  show "adv \<Longrightarrow> length (fst (snd st)) < length s" using f by simp
qed

lemma search_from_Some:
  "search_from ic r adv p s = Some (p0, st) \<Longrightarrow>
     length (fst (snd st)) \<le> length s \<and>
     (length (fst (snd st)) = length s \<longrightarrow> \<not> adv \<and> length (fst st) = length p0)"
proof (induction s arbitrary: adv p)
  case Nil
  then obtain "match_here ic r adv p [] = Some st" and "p0 = p"
    by (auto split: option.splits)
  then show ?case
    using match_here_Some(2,3)[of ic r adv p "[]" st]
      consumes_length[of "(p, [], [])" st] consumes_same[of "(p, [], [])" st]
    by auto
next
  case (Cons x xs)
  show ?case
  proof (cases "match_here ic r adv p (x # xs)")
    case None
    with Cons.prems have "search_from ic r False (x # p) xs = Some (p0, st)" by simp
    from Cons.IH[OF this] show ?thesis by auto
  next
    case (Some st1)
    with Cons.prems have eq: "st1 = st" "p0 = p" by auto
    from match_here_Some(2,3)[OF Some] eq show ?thesis
      using consumes_length[of "(p, x # xs, [])" st] consumes_same[of "(p, x # xs, [])" st]
      by auto
  qed
qed

text \<open>
  \<open>re.finditer\<close>: the scanner searches again from the end of each match, with
  \<open>must_advance\<close> set when that match was empty, until a search fails.
\<close>

function finditer_from :: "bool \<Rightarrow> regex \<Rightarrow> bool \<Rightarrow> string \<Rightarrow> string \<Rightarrow> rematch list" where
  "finditer_from ic r adv p s =
     (case search_from ic r adv p s of
        None \<Rightarrow> []
      | Some (p0, st) \<Rightarrow>
          mk_match p0 st #
            finditer_from ic r (length (fst st) = length p0) (fst st) (fst (snd st)))"
  by pat_completeness auto
termination
proof (relation "measure (\<lambda>(ic, r, adv, p, s). 2 * length s + (if adv then 0 else 1))", goal_cases)
  case 1
  show ?case by simp
next
  case (2 ic r adv p s x2 p0 st)
  then have "search_from ic r adv p s = Some (p0, st)" by simp
  from search_from_Some[OF this] show ?case by auto
qed

declare finditer_from.simps [simp del]

definition re_finditer :: "bool \<Rightarrow> regex \<Rightarrow> string \<Rightarrow> rematch list" where
  "re_finditer ic r text = finditer_from ic r False [] text"


section \<open>The contract risk analyzer (\<open>contract_risk_analyzer.py\<close>)\<close>

text \<open>\<open>re.escape(pattern)\<close>: every character of the keyword stands for itself.\<close>

fun lit :: "string \<Rightarrow> regex" where
  "lit [] = Eps"
| "lit [c] = Lit c"
| "lit (c # cs) = Seq (Lit c) (lit cs)"

text \<open>\<open>r'\b' + re.escape(pattern) + r'\b'\<close>\<close>

definition keyword_pattern :: "string \<Rightarrow> regex" where
  "keyword_pattern p = Seq WordB (Seq (lit p) WordB)"

text \<open>\<open>any(c in pattern for c in ".*+?()[]{}|^$")\<close>\<close>

definition is_regex_pattern :: "string \<Rightarrow> bool" where
  "is_regex_pattern p = list_ex (\<lambda>c. c \<in> set ''.*+?()[]{}|^$'') p"

definition ambiguity_patterns :: "string list" where
  "ambiguity_patterns =
     [''may'', ''might'', ''could'', ''reasonable efforts'', ''commercially reasonable'',
      ''best efforts'', ''good faith'', ''timely manner'', ''promptly'', ''substantial'',
      ''material'', ''adequate'', ''appropriate'', ''suitable'', ''satisfactory'']"

definition one_sided_patterns :: "string list" where
  "one_sided_patterns =
     [''sole discretion'', ''unilateral'', ''unilaterally'', ''at any time'',
      ''without notice'', ''without cause'', ''without liability'', ''no liability'',
      ''shall not be liable'', ''in its discretion'', ''may determine'']"

definition liability_patterns :: "string list" where
  "liability_patterns =
     [''unlimited liability'', ''sole risk'', ''indemnify.*all'', ''indemnify.*any'',
      ''defend and hold harmless'', ''to the fullest extent'', ''unlimited indemnification'',
      ''including but not limited to'', ''for any reason'']"

definition termination_patterns :: "string list" where
  "termination_patterns =
     [''immediate termination'', ''without notice'', ''terminate immediately'',
      ''at its convenience'', ''without cause'', ''for any reason'', ''change of control'']"

definition confidentiality_patterns :: "string list" where
  "confidentiality_patterns =
     [''perpetual confidentiality'', ''unlimited confidentiality'', ''forever'',
      ''no time limit'', ''without restriction'', ''sole property'']"

definition ip_patterns :: "string list" where
  "ip_patterns =
     [''assign all rights'', ''assign all intellectual property'', ''work for hire'',
      ''exclusively own'', ''transfer all'', ''irrevocably assign'']"

text \<open>\<open>self.risk_patterns\<close>, a dict in insertion order.\<close>

definition risk_patterns :: "(string \<times> string list) list" where
  "risk_patterns =
     [(''ambiguity'', ambiguity_patterns),
      (''one_sided_terms'', one_sided_patterns),
      (''liability_issues'', liability_patterns),
      (''missing_provisions'', []),
      (''termination_risks'', termination_patterns),
      (''confidentiality_risks'', confidentiality_patterns),
      (''ip_risks'', ip_patterns)]"

definition standard_provisions :: "string list" where
  "standard_provisions =
     [''termination'', ''confidentiality'', ''intellectual property'',
      ''indemnification'', ''governing law'', ''dispute resolution'',
      ''force majeure'', ''assignment'', ''notices'', ''entire agreement'']"

text \<open>
  \<open>re\<close> compiles a pattern string. The only patterns of \<open>risk_patterns\<close> that hold a
  metacharacter are \<open>indemnify.*all\<close> and \<open>indemnify.*any\<close> (lemma
  \<open>regex_patterns_of_table\<close> below); any other string is a plain keyword.
\<close>

definition re_compile :: "string \<Rightarrow> regex" where
  "re_compile p =
     (if p = ''indemnify.*all'' then Seq (lit ''indemnify'') (Seq (Rep Dot 0 None) (lit ''all''))
      else if p = ''indemnify.*any'' then Seq (lit ''indemnify'') (Seq (Rep Dot 0 None) (lit ''any''))
      else lit p)"

lemma regex_patterns_of_table:
  "filter is_regex_pattern (concat (map snd risk_patterns)) = [''indemnify.*all'', ''indemnify.*any'']"
  by code_simp

text \<open>The pattern that the loop body of \<open>analyze_contract\<close> hands to \<open>re.finditer\<close>.\<close>

definition pattern_regex :: "string \<Rightarrow> regex" where
  "pattern_regex p = (if is_regex_pattern p then re_compile p else keyword_pattern p)"

text \<open>The dict \<open>{"term": ..., "context": ...}\<close> recorded for a match.\<close>

record risk_match =
  rm_term :: string
  rm_context :: string

text \<open>\<open>text[start:end]\<close> for \<open>0 \<le> start\<close> and \<open>stop \<le> len(text)\<close>.\<close>

definition slice :: "string \<Rightarrow> nat \<Rightarrow> nat \<Rightarrow> string" where
  "slice text start stop = take (stop - start) (drop start text)"

definition match_record :: "string \<Rightarrow> rematch \<Rightarrow> risk_match" where
  "match_record text m =
     (let start = (if m_start m < 50 then 0 else m_start m - 50);
          stop = min (length text) (m_end m + 50)
      in \<lparr> rm_term = m_text m, rm_context = slice text start stop \<rparr>)"

text \<open>
  The two loops over the patterns of one category and over the matches of one pattern:
  each match is appended to \<open>matches\<close> and adds one to \<open>category_score\<close>.
\<close>

definition scan_pattern :: "string \<Rightarrow> string \<Rightarrow> risk_match list \<times> nat \<Rightarrow> risk_match list \<times> nat" where
  "scan_pattern text pattern acc =
     fold (\<lambda>m (matches, category_score). (matches @ [match_record text m], category_score + 1))
       (re_finditer True (pattern_regex pattern) text) acc"

definition scan_category :: "string \<Rightarrow> string list \<Rightarrow> risk_match list \<times> nat" where
  "scan_category text patterns = fold (scan_pattern text) patterns ([], 0)"

text \<open>The entry \<open>{"score": ..., "matches": ...}\<close> of \<open>risk_categories\<close>.\<close>

record category_result =
  cr_score :: nat
  cr_matches :: nat

record analysis =
  risk_score :: rat
  risk_categories :: "(string \<times> category_result) list"
  ambiguous_clauses :: "risk_match list"
  one_sided_terms :: "risk_match list"
  liability_issues :: "risk_match list"
  missing_provisions :: "string list"
  other_issues :: "risk_match list"

text \<open>\<open>d[k] = v\<close> on a dict in insertion order.\<close>

fun dict_set :: "('k \<times> 'v) list \<Rightarrow> 'k \<Rightarrow> 'v \<Rightarrow> ('k \<times> 'v) list" where
  "dict_set [] k v = [(k, v)]"
| "dict_set ((k', v') # d) k v = (if k' = k then (k, v) # d else (k', v') # dict_set d k v)"

definition analyze_category :: "string \<Rightarrow> string \<times> string list \<Rightarrow> analysis \<Rightarrow> analysis" where
  "analyze_category text entry a =
     (case entry of (category, patterns) \<Rightarrow>
        if category = ''missing_provisions'' then a
        else
          (case scan_category text patterns of (ms, raw) \<Rightarrow>
             let category_score = min 100 (raw * 10);
                 a' = (if category = ''ambiguity'' then a\<lparr>ambiguous_clauses := ms\<rparr>
                       else if category = ''one_sided_terms'' then a\<lparr>one_sided_terms := ms\<rparr>
                       else if category = ''liability_issues'' then a\<lparr>liability_issues := ms\<rparr>
                       else a\<lparr>other_issues := other_issues a @ ms\<rparr>)
             in a'\<lparr>risk_categories := dict_set (risk_categories a') category
                      \<lparr> cr_score = category_score, cr_matches = length ms \<rparr>\<rparr>))"

text \<open>\<open>_get_provision_synonyms\<close>\<close>

definition provision_synonyms :: "(string \<times> string list) list" where
  "provision_synonyms =
     [(''termination'', [''cancellation'', ''expiration'', ''discontinuance'']),
      (''confidentiality'', [''non-disclosure'', ''private information'', ''proprietary information'']),
      (''intellectual property'', [''ip rights'', ''copyrights'', ''patents'', ''trademarks'']),
      (''indemnification'', [''indemnity'', ''hold harmless'', ''defend'']),
      (''governing law'', [''applicable law'', ''jurisdiction'', ''choice of law'']),
      (''dispute resolution'', [''arbitration'', ''mediation'', ''settlement of disputes'']),
      (''force majeure'', [''act of god'', ''unforeseen circumstances'', ''beyond control'']),
      (''assignment'', [''transfer of rights'', ''successors'', ''assigns'']),
      (''notices'', [''notification'', ''communication'']),
      (''entire agreement'', [''complete agreement'', ''integration'', ''merger clause''])]"

definition get_provision_synonyms :: "string \<Rightarrow> string list" where
  "get_provision_synonyms provision =
     (case map_of provision_synonyms provision of None \<Rightarrow> [] | Some syns \<Rightarrow> syns)"

text \<open>\<open>re.search(r'\b' + re.escape(word) + r'\b', text_lower)\<close> finds a match.\<close>

definition word_found :: "string \<Rightarrow> string \<Rightarrow> bool" where
  "word_found word text_lower = (re_search False (keyword_pattern word) text_lower \<noteq> None)"

definition provision_found :: "string \<Rightarrow> string \<Rightarrow> bool" where
  "provision_found text_lower provision =
     (let provision_lower = str_lower provision;
          synonyms = get_provision_synonyms provision_lower
      in if word_found provision_lower text_lower then True
         else list_ex (\<lambda>synonym. word_found synonym text_lower) synonyms)"

definition find_missing_provisions :: "string \<Rightarrow> string list" where
  "find_missing_provisions text =
     (let text_lower = str_lower text
      in filter (\<lambda>provision. \<not> provision_found text_lower provision) standard_provisions)"

definition empty_analysis :: analysis where
  "empty_analysis =
     \<lparr> risk_score = 0, risk_categories = [], ambiguous_clauses = [], one_sided_terms = [],
       liability_issues = [], missing_provisions = [], other_issues = [] \<rparr>"

text \<open>
  \<open>analyze_contract\<close>. Python's true division of two integers is modelled by the exact
  quotient in \<open>rat\<close>.
\<close>

definition analyze_contract :: "string \<Rightarrow> analysis" where
  "analyze_contract text =
     (let a1 = fold (analyze_category text) risk_patterns empty_analysis;
          missing = find_missing_provisions text;
          a2 = a1\<lparr>missing_provisions := missing\<rparr>
      in if risk_categories a2 \<noteq> [] then
           (let total_score = sum_list (map (\<lambda>(c, cat). cr_score cat) (risk_categories a2));
                a3 = a2\<lparr>risk_score :=
                       min 100 (of_nat total_score / of_nat (length (risk_categories a2)))\<rparr>
            in if missing \<noteq> [] then
                 (let a4 = a3\<lparr>risk_score := risk_score a3 + of_nat (min 20 (length missing * 5))\<rparr>
                  in a4\<lparr>risk_score := min 100 (risk_score a4)\<rparr>)
               else a3)
         else a2)"

section \<open>The citation analyzer (\<open>citation_analyzer.py\<close>)\<close>

text \<open>Notation for writing the patterns down: \<open>r+\<close>, \<open>r*\<close>, \<open>r?\<close>, and a sequence.\<close>

abbreviation plus :: "regex \<Rightarrow> regex" where
  "plus r \<equiv> Rep r 1 None"

abbreviation star :: "regex \<Rightarrow> regex" where
  "star r \<equiv> Rep r 0 None"

abbreviation opt :: "regex \<Rightarrow> regex" where
  "opt r \<equiv> Rep r 0 (Some 1)"

fun seqs :: "regex list \<Rightarrow> regex" where
  "seqs [] = Eps"
| "seqs [r] = r"
| "seqs (r # rs) = Seq r (seqs rs)"

text \<open>
  \<open>re.findall\<close> returns the whole match when the pattern has no group, the group when it
  has one, and the tuple of the groups when it has several; a group that did not take
  part in the match is the empty string.
\<close>

datatype fitem = FStr string | FTuple "string list"

fun ngroups :: "regex \<Rightarrow> nat" where
  "ngroups (Seq a b) = ngroups a + ngroups b"
| "ngroups (Alt a b) = ngroups a + ngroups b"
| "ngroups (Rep a lo hi) = ngroups a"
| "ngroups (Group n a) = Suc (ngroups a)"
| "ngroups r = 0"

definition group_or_empty :: "rematch \<Rightarrow> nat \<Rightarrow> string" where
  "group_or_empty m n = (case group m n of None \<Rightarrow> [] | Some s \<Rightarrow> s)"

definition findall_item :: "nat \<Rightarrow> rematch \<Rightarrow> fitem" where
  "findall_item n m =
     (if n = 0 then FStr (m_text m)
      else if n = 1 then FStr (group_or_empty m 1)
      else FTuple (map (group_or_empty m) [1..<Suc n]))"

definition re_findall :: "bool \<Rightarrow> regex \<Rightarrow> string \<Rightarrow> fitem list" where
  "re_findall ic r text = map (findall_item (ngroups r)) (re_finditer ic r text)"

text \<open>\<open>self.patterns\<close>, in the order of the source.\<close>

definition year :: regex where
  "year = Rep Digit 4 (Some 4)"

definition case_patterns :: "regex list" where
  "case_patterns =
     [seqs [Lit CHR ''('', year, Lit CHR '')'', plus Space, plus Digit, plus Space,
            lit ''SCC'', plus Space, plus Digit],
      seqs [year, plus Space, Lit CHR ''('', plus Digit, Lit CHR '')'', plus Space,
            lit ''SCC'', plus Space, plus Digit],
      seqs [lit ''AIR'', plus Space, year, plus Space, lit ''SC'', plus Space, plus Digit],
      seqs [Lit CHR ''('', year, Lit CHR '')'', plus Space, plus Digit, plus Space,
            lit ''SCR'', plus Space, plus Digit]]"

text \<open>\<open>[A-Z][a-z]+(?:\s+[A-Z][a-z]+)*\<close>\<close>

definition capitalised_words :: regex where
  "capitalised_words =
     seqs [CSet [CUpper], plus (CSet [CLower]),
           star (seqs [plus Space, CSet [CUpper], plus (CSet [CLower])])]"

text \<open>\<open>(?:The\s+)?([A-Z][a-z]+(?:\s+[A-Z][a-z]+)*\s+KIND,?\s+(?:of\s+)?\d{4})\<close>\<close>

definition statute_pattern :: "string \<Rightarrow> regex" where
  "statute_pattern kind =
     seqs [opt (seqs [lit ''The'', plus Space]),
           Group 1 (seqs [capitalised_words, plus Space, lit kind, opt (Lit CHR '',''),
                          plus Space, opt (seqs [lit ''of'', plus Space]), year])]"

definition statute_patterns :: "regex list" where
  "statute_patterns =
     [statute_pattern ''Act'', statute_pattern ''Rules'', statute_pattern ''Regulation'']"

text \<open>\<open>\d+(?:\(\d+\))?(?:\([a-z]\))?\<close>\<close>

definition article_number :: regex where
  "article_number =
     seqs [plus Digit, opt (seqs [Lit CHR ''('', plus Digit, Lit CHR '')'']),
           opt (seqs [Lit CHR ''('', CSet [CLower], Lit CHR '')''])]"

definition article_word :: regex where
  "article_word = seqs [CSet [CChar CHR ''A'', CChar CHR ''a''], lit ''rticle'', plus Space]"

definition constitution_patterns :: "regex list" where
  "constitution_patterns =
     [seqs [article_word, Group 1 article_number],
      seqs [article_word, Group 1 (plus Digit),
            opt (seqs [Lit CHR ''('', Group 2 (plus Digit),
                       opt (seqs [Lit CHR ''('', Group 3 (CSet [CLower]), Lit CHR '')''])]),
            Lit CHR '')''],
      seqs [article_word, Group 1 article_number, plus Space, lit ''of'', plus Space,
            lit ''the'', plus Space, lit ''Constitution'']]"

text \<open>\<open>\d+(?:\([a-z]\))?\<close>\<close>

definition section_number :: regex where
  "section_number = seqs [plus Digit, opt (seqs [Lit CHR ''('', CSet [CLower], Lit CHR '')''])]"

definition section_patterns :: "regex list" where
  "section_patterns =
     [seqs [lit ''Section'', plus Space, Group 1 section_number, plus Space, lit ''of'',
            plus Space, lit ''the'', plus Space, Group 2 (plus (CSet [CUpper, CLower, CSpace]))],
      seqs [lit ''under'', plus Space, CSet [CChar CHR ''S'', CChar CHR ''s''], lit ''ection'',
            plus Space, Group 1 section_number]]"

definition citation_patterns :: "(string \<times> regex list) list" where
  "citation_patterns =
     [(''case_citations'', case_patterns),
      (''statute_citations'', statute_patterns),
      (''constitution_citations'', constitution_patterns),
      (''section_citations'', section_patterns)]"

text \<open>\<open>sep.join(xs)\<close>\<close>

fun str_join :: "string \<Rightarrow> string list \<Rightarrow> string" where
  "str_join sep [] = []"
| "str_join sep [x] = x"
| "str_join sep (x # xs) = x @ sep @ str_join sep xs"

text \<open>The string appended to \<open>matches\<close> for one element of \<open>found\<close>.\<close>

fun match_string :: "fitem \<Rightarrow> string" where
  "match_string (FTuple ms) = str_join '' '' (filter (\<lambda>m. m \<noteq> []) ms)"
| "match_string (FStr s) = s"

text \<open>The match stream of a category: the loop over its patterns and over what each finds.\<close>

definition match_stream :: "regex list \<Rightarrow> string \<Rightarrow> string list" where
  "match_stream patterns text =
     fold (\<lambda>pattern matches.
             fold (\<lambda>found matches. matches @ [match_string found])
               (re_findall False pattern text) matches)
       patterns []"

text \<open>``Remove duplicates while preserving order''\<close>

definition unique_matches :: "string list \<Rightarrow> string list" where
  "unique_matches matches =
     fold (\<lambda>item unique. if item \<in> set unique then unique else unique @ [item]) matches []"

text \<open>
  The elements of a list at the positions where they occur for the first time, in the
  order of the list.
\<close>

definition first_occurrences :: "'a list \<Rightarrow> 'a list" where
  "first_occurrences xs =
     map (\<lambda>i. xs ! i) (filter (\<lambda>i. xs ! i \<notin> set (take i xs)) [0..<length xs])"

definition extract_citations :: "string \<Rightarrow> (string \<times> string list) list" where
  "extract_citations text =
     fold (\<lambda>(citation_type, patterns) citations.
             dict_set citations citation_type (unique_matches (match_stream patterns text)))
       citation_patterns []"

section \<open>The analysis tools (\<open>legal_analyzer_tools.py\<close>)\<close>

text \<open>\<open>s.strip()\<close>\<close>

definition lstrip :: "string \<Rightarrow> string" where
  "lstrip s = dropWhile is_space s"

definition strip :: "string \<Rightarrow> string" where
  "strip s = rev (lstrip (rev (lstrip s)))"

text \<open>\<open>[A-Za-z]+\s+\d{1,2},\s+\d{4}\<close>\<close>

definition month_day_year :: regex where
  "month_day_year =
     seqs [plus (CSet [CUpper, CLower]), plus Space, Rep Digit 1 (Some 2), Lit CHR '','',
           plus Space, year]"

text \<open>\<open>date_patterns\<close>, matched with \<open>re.IGNORECASE\<close>.\<close>

definition date_patterns :: "regex list" where
  "date_patterns =
     [seqs [lit ''effective as of'', plus Space, Group 1 month_day_year],
      seqs [lit ''dated'', plus Space, Group 1 month_day_year],
      seqs [lit ''dated'', plus Space, lit ''this'', plus Space,
            Group 1 (seqs [Rep Digit 1 (Some 2),
                           opt (Alt (lit ''st'') (Alt (lit ''nd'') (Alt (lit ''rd'') (lit ''th'')))),
                           plus Space, lit ''day'', plus Space, lit ''of'', plus Space,
                           plus (CSet [CUpper, CLower]), Lit CHR '','', plus Space, year])]]"

text \<open>\<open>[^,]+\<close>\<close>

definition no_commas :: regex where
  "no_commas = plus (NSet [CChar CHR '',''])"

text \<open>
  \<open>between\s+([^,]+),\s+a[n]?\s+([^,]+),?(?:\s+organized\s+under\s+the\s+laws\s+of\s+([^,]+))?[^,]*,\s+(?:with\s+)?(?:its\s+)?(?:principal\s+)?(?:place\s+of\s+business\s+at\s+)?([^,]+)\<close>
\<close>

definition parties_pattern :: regex where
  "parties_pattern =
     seqs [lit ''between'', plus Space, Group 1 no_commas, Lit CHR '','', plus Space,
           Lit CHR ''a'', opt (CSet [CChar CHR ''n'']), plus Space, Group 2 no_commas,
           opt (Lit CHR '',''),
           opt (seqs [plus Space, lit ''organized'', plus Space, lit ''under'', plus Space,
                      lit ''the'', plus Space, lit ''laws'', plus Space, lit ''of'', plus Space,
                      Group 3 no_commas]),
           star (NSet [CChar CHR '','']), Lit CHR '','', plus Space,
           opt (seqs [lit ''with'', plus Space]),
           opt (seqs [lit ''its'', plus Space]),
           opt (seqs [lit ''principal'', plus Space]),
           opt (seqs [lit ''place'', plus Space, lit ''of'', plus Space, lit ''business'',
                      plus Space, lit ''at'', plus Space]),
           Group 4 no_commas]"

text \<open>\<open>\$\s?(\d{1,3}(?:,\d{3})*(?:\.\d{2})?)\<close>\<close>

definition money_pattern :: regex where
  "money_pattern =
     seqs [Lit CHR ''$'', opt Space,
           Group 1 (seqs [Rep Digit 1 (Some 3),
                          star (seqs [Lit CHR '','', Rep Digit 3 (Some 3)]),
                          opt (seqs [Lit CHR ''.'', Rep Digit 2 (Some 2)])])]"

record party =
  party_name :: string
  party_type :: "string option"
  party_jurisdiction :: "string option"
  party_address :: "string option"

record financial_term =
  ft_amount :: string
  ft_context :: string

text \<open>
  The returned dict: \<open>effective_date\<close> is \<open>None\<close> when the key is absent; the keys
  \<open>parties\<close> and \<open>financial_terms\<close> are always set.
\<close>

record contract_details =
  effective_date :: "string option"
  parties :: "party list"
  financial_terms :: "financial_term list"

text \<open>
  The loop over \<open>date_patterns\<close>: the first pattern that matches sets the key and ends
  the loop.
\<close>

fun find_effective_date :: "regex list \<Rightarrow> string \<Rightarrow> string option" where
  "find_effective_date [] text = None"
| "find_effective_date (pattern # patterns) text =
     (case re_search True pattern text of
        None \<Rightarrow> find_effective_date patterns text
      | Some m \<Rightarrow> group m 1)"

text \<open>\<open>match.group(n).strip() if match.group(n) else None\<close>\<close>

definition stripped_group :: "rematch \<Rightarrow> nat \<Rightarrow> string option" where
  "stripped_group m n =
     (case group m n of None \<Rightarrow> None | Some s \<Rightarrow> if s = [] then None else Some (strip s))"

text \<open>
  The body of the loop over the parties matches; a failing \<open>match.group(1).strip()\<close> is
  caught and the match is skipped.
\<close>

definition party_of :: "rematch \<Rightarrow> party option" where
  "party_of m =
     (case group m 1 of
        None \<Rightarrow> None
      | Some n \<Rightarrow> Some \<lparr> party_name = strip n, party_type = stripped_group m 2,
                         party_jurisdiction = stripped_group m 3,
                         party_address = stripped_group m 4 \<rparr>)"

definition financial_term_of :: "string \<Rightarrow> rematch \<Rightarrow> financial_term" where
  "financial_term_of text m =
     (let start = (if m_start m < 50 then 0 else m_start m - 50);
          stop = min (length text) (m_end m + 50)
      in \<lparr> ft_amount = m_text m, ft_context = slice text start stop \<rparr>)"

definition extract_contract_details :: "string \<Rightarrow> contract_details" where
  "extract_contract_details text =
     \<lparr> effective_date = find_effective_date date_patterns text,
       parties = List.map_filter party_of (re_finditer True parties_pattern text),
       financial_terms = map (financial_term_of text) (re_finditer False money_pattern text) \<rparr>"

text \<open>\<open>needle in haystack\<close> for strings.\<close>

fun contains :: "string \<Rightarrow> string \<Rightarrow> bool" where
  "contains [] needle = (needle = [])"
| "contains (c # cs) needle =
     (if take (length needle) (c # cs) = needle then True else contains cs needle)"

text \<open>\<open>_determine_document_type\<close>\<close>

definition determine_document_type :: "string \<Rightarrow> string" where
  "determine_document_type text =
     (let text_lower = str_lower text
      in if contains text_lower ''consulting agreement'' \<or> contains text_lower ''consulting services''
         then ''consulting_agreement''
         else if contains text_lower ''employment agreement'' then ''employment_agreement''
         else if contains text_lower ''software license'' then ''license_agreement''
         else if contains text_lower ''non-disclosure'' \<or> contains text_lower ''confidentiality agreement''
         then ''nda''
         else if contains text_lower ''purchase agreement'' \<or> contains text_lower ''asset purchase''
         then ''purchase_agreement''
         else if contains text_lower ''lease'' \<and>
                 (contains text_lower ''property'' \<or> contains text_lower ''premises'')
         then ''lease_agreement''
         else ''contract'')"

text \<open>\<open>(?:SECTION|ARTICLE)\s+(\d+(?:\.\d+)?)\.\s+([^\n]+)\<close>, matched with \<open>re.IGNORECASE\<close>.\<close>

definition key_section_pattern :: regex where
  "key_section_pattern =
     seqs [Alt (lit ''SECTION'') (lit ''ARTICLE''), plus Space,
           Group 1 (seqs [plus Digit, opt (seqs [Lit CHR ''.'', plus Digit])]),
           Lit CHR ''.'', plus Space, Group 2 (plus (NSet [CChar (CHR 0x0A)]))]"

text \<open>
  \<open>(?:governed by|governing law|subject to).{1,50}(?:laws of|law of)\s+([A-Za-z ]+)\<close>,
  matched with \<open>re.IGNORECASE\<close>.
\<close>

definition gov_law_pattern :: regex where
  "gov_law_pattern =
     seqs [Alt (lit ''governed by'') (Alt (lit ''governing law'') (lit ''subject to'')),
           Rep Dot 1 (Some 50),
           Alt (lit ''laws of'') (lit ''law of''), plus Space,
           Group 1 (plus (CSet [CUpper, CLower, CChar CHR '' '']))]"

record summary_date =
  sd_type :: string
  sd_value :: string

record key_section =
  ks_number :: string
  ks_title :: string

record legal_summary =
  document_type :: string
  key_sections :: "key_section list"
  summary_parties :: "party list"
  dates :: "summary_date list"
  summary_financial_terms :: "financial_term list"
  governing_law :: "string option"

definition key_section_of :: "rematch \<Rightarrow> key_section" where
  "key_section_of m =
     \<lparr> ks_number = group_or_empty m 1, ks_title = strip (group_or_empty m 2) \<rparr>"

definition find_governing_law :: "string \<Rightarrow> string option" where
  "find_governing_law text =
     (case re_search True gov_law_pattern text of
        None \<Rightarrow> None
      | Some m \<Rightarrow> Some (strip (group_or_empty m 1)))"

definition generate_legal_summary :: "string \<Rightarrow> legal_summary" where
  "generate_legal_summary text =
     (let details = extract_contract_details text
      in \<lparr> document_type = determine_document_type text,
           key_sections = map key_section_of (re_finditer True key_section_pattern text),
           summary_parties = parties details,
           dates = (case effective_date details of
                      None \<Rightarrow> []
                    | Some d \<Rightarrow> [\<lparr> sd_type = ''effective_date'', sd_value = d \<rparr>]),
           summary_financial_terms = financial_terms details,
           governing_law = find_governing_law text \<rparr>)"

section \<open>The metadata extractor (\<open>enhanced_document_processor.py\<close>)\<close>










record section_entry =
  se_number :: string
  se_title :: string

text \<open>The returned dict, with its five keys.\<close>

record metadata =
  md_sections :: "section_entry list"
  md_entities :: "string list"
  md_dates :: "string list"
  md_statutes :: "string list"
  md_case_citations :: "string list"






section \<open>The section extractor (\<open>legal_document_comparison.py\<close>)\<close>













section \<open>The word-set similarity (\<open>document_comparison.py\<close>)\<close>

text \<open>\<open>\b\w+\b\<close>\<close>

definition word_pattern :: regex where
  "word_pattern = seqs [WordB, plus WordCh, WordB]"

text \<open>\<open>set(re.findall(r'\b\w+\b', text.lower()))\<close>\<close>

definition word_set :: "string \<Rightarrow> fitem set" where
  "word_set text = set (re_findall False word_pattern (str_lower text))"

text \<open>
  A Python \<open>float\<close> is an IEEE 754 binary64 number; it is modelled by the rational
  number that it denotes. \<open>round_half_even\<close> is the nearest integer, a tie going to the
  even one.
\<close>

definition round_half_even :: "rat \<Rightarrow> int" where
  "round_half_even x =
     (let f = \<lfloor>x\<rfloor>; d = x - of_int f
      in if d < 1 / 2 then f else if 1 / 2 < d then f + 1 else if even f then f else f + 1)"

text \<open>\<open>n.bit_length()\<close> of an integer that is not negative.\<close>

function bit_length :: "int \<Rightarrow> int" where
  "bit_length n = (if n \<le> 0 then 0 else 1 + bit_length (n div 2))"
  by pat_completeness auto
termination
  by (relation "measure nat") auto

declare bit_length.simps [simp del]

definition pow2 :: "int \<Rightarrow> rat" where
  "pow2 k = (if 0 \<le> k then 2 ^ nat k else 1 / 2 ^ nat (- k))"

text \<open>The binary exponent of a positive rational: \<open>2 ^ binade q \<le> q < 2 ^ (binade q + 1)\<close>.\<close>

definition binade :: "rat \<Rightarrow> int" where
  "binade q =
     (case quotient_of q of (n, d) \<Rightarrow>
        let k = bit_length n - bit_length d
        in if pow2 k \<le> q then k else k - 1)"

text \<open>
  The float nearest to a rational \<open>q\<close> with \<open>0 \<le> q < 2 ^ 1024\<close>: \<open>q\<close> is rounded to
  a multiple of the unit in the last place of its binade (53 significant bits, the
  exponent not below \<open>-1022\<close>), a tie going to the even multiple. This is the result
  of \<open>a / b\<close> for two integers and of the conversion of a decimal numeral.
\<close>

definition float_of :: "rat \<Rightarrow> rat" where
  "float_of q =
     (if q = 0 then 0
      else let ulp = pow2 (max (binade q) (- 1022) - 52)
           in of_int (round_half_even (q / ulp)) * ulp)"

text \<open>\<open>a / b\<close> for two integers that are not negative, \<open>b\<close> not zero.\<close>

definition true_div :: "nat \<Rightarrow> nat \<Rightarrow> rat" where
  "true_div a b = float_of (of_nat a / of_nat b)"

text \<open>
  \<open>round(x, 4)\<close> for a float \<open>x\<close> that is not negative: the decimal numeral with four
  places nearest to the value of \<open>x\<close>, a tie going to the even last digit, converted
  to a float.
\<close>

definition round4 :: "rat \<Rightarrow> rat" where
  "round4 x = float_of (of_int (round_half_even (x * 10000)) / 10000)"

text \<open>\<open>_calculate_text_similarity\<close>\<close>

definition calculate_text_similarity :: "string \<Rightarrow> string \<Rightarrow> rat" where
  "calculate_text_similarity text1 text2 =
     (let words1 = word_set text1;
          words2 = word_set text2;
          intersection = card (words1 \<inter> words2);
          union = card (words1 \<union> words2)
      in if union > 0 then round4 (true_div intersection union) else 0)"

text \<open>The Jaccard ratio of the two word sets, not rounded.\<close>

definition jaccard_ratio :: "string \<Rightarrow> string \<Rightarrow> rat" where
  "jaccard_ratio text1 text2 =
     of_nat (card (word_set text1 \<inter> word_set text2)) /
     of_nat (card (word_set text1 \<union> word_set text2))"

section \<open>The citation network (\<open>build_citation_network\<close>)\<close>

text \<open>
  \<open>nx.DiGraph\<close>: a directed graph without parallel edges. Nodes and edges are kept in
  insertion order, each with its attributes: a node has the attribute \<open>type\<close> or none, an
  edge the attribute \<open>shared\<close> or none. An ordered pair of nodes is the key of at most one
  edge.
\<close>

record digraph =
  g_nodes :: "(string \<times> string option) list"
  g_edges :: "((string \<times> string) \<times> string option) list"

definition empty_graph :: digraph where
  "empty_graph = \<lparr> g_nodes = [], g_edges = [] \<rparr>"

definition has_node :: "digraph \<Rightarrow> string \<Rightarrow> bool" where
  "has_node G n = (n \<in> set (map fst (g_nodes G)))"

text \<open>\<open>G.add_node(n, type=t)\<close>: a new node, or a new value of the attribute of an old one.\<close>

definition add_node :: "digraph \<Rightarrow> string \<Rightarrow> string \<Rightarrow> digraph" where
  "add_node G n t = G\<lparr>g_nodes := dict_set (g_nodes G) n (Some t)\<rparr>"

text \<open>\<open>add_edge\<close> adds an end point that is not yet a node, without attributes.\<close>

definition ensure_node :: "digraph \<Rightarrow> string \<Rightarrow> digraph" where
  "ensure_node G n = (if has_node G n then G else G\<lparr>g_nodes := g_nodes G @ [(n, None)]\<rparr>)"

text \<open>\<open>G.add_edge(u, v)\<close>: an old edge keeps its attributes.\<close>

definition add_edge :: "digraph \<Rightarrow> string \<Rightarrow> string \<Rightarrow> digraph" where
  "add_edge G u v =
     (let G' = ensure_node (ensure_node G u) v
      in if (u, v) \<in> set (map fst (g_edges G')) then G'
         else G'\<lparr>g_edges := g_edges G' @ [((u, v), None)]\<rparr>)"

text \<open>\<open>G.add_edge(u, v, shared=c)\<close>: on an old edge the attribute is overwritten.\<close>

definition add_edge_shared :: "digraph \<Rightarrow> string \<Rightarrow> string \<Rightarrow> string \<Rightarrow> digraph" where
  "add_edge_shared G u v c =
     (let G' = ensure_node (ensure_node G u) v
      in G'\<lparr>g_edges := dict_set (g_edges G') (u, v) (Some c)\<rparr>)"

text \<open>A document is the tuple \<open>(doc_id, text, metadata)\<close>.\<close>

type_synonym document = "string \<times> string \<times> (string \<times> string) list"

text \<open>\<open>metadata.get('filename', doc_id)\<close>\<close>

definition doc_name :: "document \<Rightarrow> string" where
  "doc_name d = (case d of (doc_id, text, metadata) \<Rightarrow>
     (case map_of metadata ''filename'' of None \<Rightarrow> doc_id | Some f \<Rightarrow> f))"

definition doc_text :: "document \<Rightarrow> string" where
  "doc_text d = (case d of (doc_id, text, metadata) \<Rightarrow> text)"

text \<open>\<open>f"{citation_type}:{citation}"\<close>\<close>

definition citation_str :: "string \<Rightarrow> string \<Rightarrow> string" where
  "citation_str citation_type citation = citation_type @ '':'' @ citation"

text \<open>
  The first loop, for one document: the document node, then for every citation of every
  category the citation node (unless it is there) and the edge from the document.
\<close>

definition add_citation :: "string \<Rightarrow> string \<Rightarrow> string \<Rightarrow> digraph \<Rightarrow> digraph" where
  "add_citation name citation_type citation G =
     (let key = citation_str citation_type citation;
          G' = (if \<not> has_node G key then add_node G key citation_type else G)
      in add_edge G' name key)"

definition add_document ::
    "document \<Rightarrow> digraph \<times> (string \<times> (string \<times> string list) list) list \<Rightarrow>
     digraph \<times> (string \<times> (string \<times> string list) list) list" where
  "add_document d acc =
     (case acc of (G, doc_citations) \<Rightarrow>
        let name = doc_name d;
            G1 = add_node G name ''document'';
            citations = extract_citations (doc_text d);
            G2 = fold (\<lambda>(citation_type, found) G.
                         fold (\<lambda>citation G. add_citation name citation_type citation G) found G)
                   citations G1
        in (G2, dict_set doc_citations name citations))"

text \<open>\<open>citation_to_docs[key].append(name)\<close> on a \<open>defaultdict(list)\<close>.\<close>

fun dict_append :: "('k \<times> 'v list) list \<Rightarrow> 'k \<Rightarrow> 'v \<Rightarrow> ('k \<times> 'v list) list" where
  "dict_append [] k v = [(k, [v])]"
| "dict_append ((k', vs) # d) k v =
     (if k' = k then (k, vs @ [v]) # d else (k', vs) # dict_append d k v)"

text \<open>The second loop: the inverse index from a citation key to the documents citing it.\<close>

definition citation_to_docs ::
    "(string \<times> (string \<times> string list) list) list \<Rightarrow> (string \<times> string list) list" where
  "citation_to_docs doc_citations =
     fold (\<lambda>(name, citations) index.
             fold (\<lambda>(citation_type, found) index.
                     fold (\<lambda>citation index.
                             dict_append index (citation_str citation_type citation) name)
                       found index)
               citations index)
       doc_citations []"

text \<open>
  The third loop, for one citation: an edge for every pair \<open>i < j\<close> of its citing documents
  when there are at least two.
\<close>

definition connect_citing :: "string \<times> string list \<Rightarrow> digraph \<Rightarrow> digraph" where
  "connect_citing entry G =
     (case entry of (citation, citing_docs) \<Rightarrow>
        if length citing_docs > 1 then
          fold (\<lambda>i G. fold (\<lambda>j G. add_edge_shared G (citing_docs ! i) (citing_docs ! j) citation)
                         [i + 1..<length citing_docs] G)
            [0..<length citing_docs] G
        else G)"

definition build_citation_network :: "document list \<Rightarrow> digraph" where
  "build_citation_network documents =
     (case fold add_document documents (empty_graph, []) of
        (G, doc_citations) \<Rightarrow> fold connect_citing (citation_to_docs doc_citations) G)"

text \<open>The citation keys of a document, in the order in which the loops visit them.\<close>

definition citation_keys :: "(string \<times> string list) list \<Rightarrow> string list" where
  "citation_keys citations =
     concat (map (\<lambda>(citation_type, found). map (citation_str citation_type) found) citations)"

definition doc_keys :: "document \<Rightarrow> string list" where
  "doc_keys d = citation_keys (extract_citations (doc_text d))"

text \<open>The edges of a graph from one node to another, and the co-citation edges.\<close>

definition edges_from_to :: "digraph \<Rightarrow> string \<Rightarrow> string \<Rightarrow> ((string \<times> string) \<times> string option) list" where
  "edges_from_to G u v = filter (\<lambda>e. fst e = (u, v)) (g_edges G)"

definition co_citation_edges :: "digraph \<Rightarrow> ((string \<times> string) \<times> string option) list" where
  "co_citation_edges G = filter (\<lambda>e. snd e \<noteq> None) (g_edges G)"

subsection \<open>Notions for stating the properties of the network\<close>

text \<open>The names of the nodes and the keys of the edges, in insertion order; a graph is
  untagged when no edge has the attribute \<open>shared\<close>.\<close>

definition node_names :: "digraph \<Rightarrow> string list" where
  "node_names G = map fst (g_nodes G)"

definition edge_keys :: "digraph \<Rightarrow> (string \<times> string) list" where
  "edge_keys G = map fst (g_edges G)"

definition untagged :: "digraph \<Rightarrow> bool" where
  "untagged G = list_all (\<lambda>e. snd e = None) (g_edges G)"

text \<open>The citations of one document, as a list of (category, citation) pairs.\<close>

definition citation_pairs :: "(string \<times> string list) list \<Rightarrow> (string \<times> string) list" where
  "citation_pairs citations = concat (map (\<lambda>(ct, found). map (Pair ct) found) citations)"

text \<open>The graph part and the dict part of one round of the first loop.\<close>

definition document_graph :: "document \<Rightarrow> digraph \<Rightarrow> digraph" where
  "document_graph d G =
     fold (\<lambda>(ct, c) G. add_citation (doc_name d) ct c G)
       (citation_pairs (extract_citations (doc_text d)))
       (add_node G (doc_name d) ''document'')"

definition document_entry :: "document \<Rightarrow> string \<times> (string \<times> string list) list" where
  "document_entry d = (doc_name d, extract_citations (doc_text d))"

text \<open>The (key, document) pairs in the order in which the second loop appends them.\<close>

definition key_pairs :: "(string \<times> (string \<times> string list) list) list \<Rightarrow> (string \<times> string) list" where
  "key_pairs doc_citations =
     concat (map (\<lambda>(name, citations). map (\<lambda>k. (k, name)) (citation_keys citations))
               doc_citations)"

text \<open>The edges that the third loop adds, as triples of two documents and the shared key.\<close>

definition add_triple :: "string \<times> string \<times> string \<Rightarrow> digraph \<Rightarrow> digraph" where
  "add_triple t G = (case t of (u, v, c) \<Rightarrow> add_edge_shared G u v c)"

definition citing_triples :: "string \<times> string list \<Rightarrow> (string \<times> string \<times> string) list" where
  "citing_triples entry =
     (case entry of (c, citing) \<Rightarrow>
        concat (map (\<lambda>i. map (\<lambda>j. (citing ! i, citing ! j, c)) [i + 1..<length citing])
                  [0..<length citing]))"

definition triple_edge :: "string \<times> string \<times> string \<Rightarrow> (string \<times> string) \<times> string option" where
  "triple_edge t = (case t of (u, v, c) \<Rightarrow> ((u, v), Some c))"

text \<open>The triples of a whole network, and for a key the indices of the documents citing it.\<close>

definition network_triples :: "document list \<Rightarrow> (string \<times> string \<times> string) list" where
  "network_triples docs =
     concat (map citing_triples (citation_to_docs (map document_entry docs)))"

definition key_name_pairs :: "document list \<Rightarrow> (string \<times> string) list" where
  "key_name_pairs docs = concat (map (\<lambda>d. map (\<lambda>k. (k, doc_name d)) (doc_keys d)) docs)"

definition citing_indices :: "string \<Rightarrow> document list \<Rightarrow> nat list" where
  "citing_indices c docs = filter (\<lambda>i. c \<in> set (doc_keys (docs ! i))) [0..<length docs]"

text \<open>
  Three lists of documents: two documents that cite the same two cases, one document
  whose name is the key of the case that it cites, and two documents that share no
  citation.
\<close>

definition two_docs :: "document list" where
  "two_docs = [(''d1'', ''AIR 1950 SC 2 AIR 1951 SC 3'', []),
               (''d2'', ''AIR 1951 SC 3 AIR 1950 SC 2'', [(''filename'', ''b.txt'')])]"

definition self_named_docs :: "document list" where
  "self_named_docs = [(''case_citations:AIR 1950 SC 2'', ''AIR 1950 SC 2'', [])]"

definition apart_docs :: "document list" where
  "apart_docs = [(''a.txt'', ''AIR 1950 SC 2'', []),
                 (''b.txt'', ''AIR 1951 SC 3 (2020) 5 SCC 1'', [])]"

section \<open>Properties of the risk score\<close>


definition scored_categories :: "string list" where
  "scored_categories = [''ambiguity'', ''one_sided_terms'', ''liability_issues'',
     ''termination_risks'', ''confidentiality_risks'', ''ip_risks'']"

definition raw_match_count :: "string \<Rightarrow> string \<Rightarrow> nat" where
  "raw_match_count text category =
     (case map_of risk_patterns category of
        None \<Rightarrow> 0
      | Some patterns \<Rightarrow>
          sum_list (map (\<lambda>p. length (re_finditer True (pattern_regex p) text)) patterns))"

definition capped_score :: "string \<Rightarrow> string \<Rightarrow> nat" where
  "capped_score text category = min 100 (raw_match_count text category * 10)"

lemma fold_match_acc:
  "fold (\<lambda>m (matches, category_score). (matches @ [f m], category_score + 1)) xs (ms, n) =
     (ms @ map f xs, n + length xs)"
  by (induction xs arbitrary: ms n) auto

lemma scan_pattern_eq:
  "scan_pattern text p (ms, n) =
     (ms @ map (match_record text) (re_finditer True (pattern_regex p) text),
      n + length (re_finditer True (pattern_regex p) text))"
  unfolding scan_pattern_def by (rule fold_match_acc)

lemma fold_scan_pattern:
  "fold (scan_pattern text) ps (ms, n) =
     (ms @ concat (map (\<lambda>p. map (match_record text) (re_finditer True (pattern_regex p) text)) ps),
      n + sum_list (map (\<lambda>p. length (re_finditer True (pattern_regex p) text)) ps))"
  by (induction ps arbitrary: ms n) (auto simp: scan_pattern_eq)

lemma scan_category_eq:
  "scan_category text ps =
     (concat (map (\<lambda>p. map (match_record text) (re_finditer True (pattern_regex p) text)) ps),
      sum_list (map (\<lambda>p. length (re_finditer True (pattern_regex p) text)) ps))"
  by (simp add: scan_category_def fold_scan_pattern)

lemma length_concat_records:
  "length (concat (map (\<lambda>p. map f (g p)) ps)) = sum_list (map (\<lambda>p. length (g p)) ps)"
  by (induction ps) auto

lemma raw_count_snd:
  "map_of risk_patterns c = Some ps \<Longrightarrow> snd (scan_category text ps) = raw_match_count text c"
  by (simp add: scan_category_eq raw_match_count_def)

lemma risk_categories_fold:
  "risk_categories (fold (analyze_category text) risk_patterns empty_analysis) =
     map (\<lambda>c. (c, \<lparr> cr_score = capped_score text c,
                      cr_matches = raw_match_count text c \<rparr>)) scored_categories"
  by (simp add: risk_patterns_def analyze_category_def scan_category_eq empty_analysis_def
      scored_categories_def capped_score_def raw_match_count_def Let_def length_concat_records)

lemma capped_le: "capped_score text c \<le> 100"
  by (simp add: capped_score_def)

lemma sum_capped_le: "sum_list (map (capped_score text) cs) \<le> 100 * length cs"
proof (induction cs)
  case Nil
  then show ?case by simp
next
  case (Cons c cs)
  then show ?case using capped_le[of _ c] by (simp add: add_mono)
qed

lemma analyze_contract_score:
  "risk_score (analyze_contract text) =
     min 100 (of_nat (sum_list (map (capped_score text) scored_categories)) / 6
              + of_nat (min 20 (length (find_missing_provisions text) * 5)))"
proof -
  let ?cats = "risk_categories (fold (analyze_category text) risk_patterns empty_analysis)"
  let ?T = "sum_list (map (capped_score text) scored_categories)"
  have cats: "?cats = map (\<lambda>c. (c, \<lparr> cr_score = capped_score text c,
                      cr_matches = raw_match_count text c \<rparr>)) scored_categories"
    by (rule risk_categories_fold)
  have len: "length ?cats = 6" by (simp add: cats scored_categories_def)
  have ne: "?cats \<noteq> []" using len by auto
  have tot: "sum_list (map (\<lambda>(c, cat). cr_score cat) ?cats) = ?T"
    by (simp add: cats comp_def)
  have "?T \<le> 600"
    using sum_capped_le[of _ scored_categories] by (simp add: scored_categories_def)
  then have "(of_nat ?T :: rat) \<le> of_nat 600" by (rule of_nat_mono)
  then have mean_le: "(of_nat ?T :: rat) / 6 \<le> 100" by simp
  show ?thesis
  proof (cases "find_missing_provisions text = []")
    case True
    then show ?thesis using ne len tot mean_le
      by (simp add: analyze_contract_def Let_def)
  next
    case False
    then show ?thesis using ne len tot mean_le
      by (simp add: analyze_contract_def Let_def min_absorb2)
  qed
qed

lemma analyze_contract_categories:
  "risk_categories (analyze_contract text) =
     map (\<lambda>c. (c, \<lparr> cr_score = capped_score text c,
                      cr_matches = raw_match_count text c \<rparr>)) scored_categories"
  using risk_categories_fold[of "text"]
  by (simp add: analyze_contract_def Let_def)

lemma analyze_contract_bounds:
  "0 \<le> risk_score (analyze_contract text) \<and> risk_score (analyze_contract text) \<le> 100"
proof -
  have "(0::rat) \<le> of_nat (sum_list (map (capped_score text) scored_categories)) / 6
          + of_nat (min 20 (length (find_missing_provisions text) * 5))"
    by simp
  then show ?thesis unfolding analyze_contract_score by simp
qed

text \<open>The analysis of the three-character contract \<open>may\<close>, evaluated.\<close>

lemma may_scores: "map (capped_score ''may'') scored_categories = [10, 0, 0, 0, 0, 0]"
  by code_simp

lemma may_missing: "length (find_missing_provisions ''may'') = 10"
  by code_simp

section \<open>Properties of the citation extractor\<close>

lemma unique_matches_snoc:
  "unique_matches (ms @ [x]) =
     (if x \<in> set (unique_matches ms) then unique_matches ms else unique_matches ms @ [x])"
  by (simp add: unique_matches_def)

lemma unique_matches_Nil: "unique_matches [] = []"
  by (simp add: unique_matches_def)

lemma set_unique_matches: "set (unique_matches ms) = set ms"
  by (induction ms rule: rev_induct) (auto simp: unique_matches_snoc unique_matches_Nil)

lemma distinct_unique_matches: "distinct (unique_matches ms)"
  by (induction ms rule: rev_induct) (auto simp: unique_matches_snoc unique_matches_Nil)

lemma map_filter_upt_cong:
  "(\<And>i. i < n \<Longrightarrow> f i = f' i \<and> P i = P' i) \<Longrightarrow>
     map f (filter P [0..<n]) = map f' (filter P' [0..<n])"
  by (induction n) auto

lemma first_occurrences_snoc:
  "first_occurrences (xs @ [x]) = first_occurrences xs @ (if x \<in> set xs then [] else [x])"
proof -
  have A: "map (\<lambda>i. (xs @ [x]) ! i)
             (filter (\<lambda>i. (xs @ [x]) ! i \<notin> set (take i (xs @ [x]))) [0..<length xs]) =
           map (\<lambda>i. xs ! i) (filter (\<lambda>i. xs ! i \<notin> set (take i xs)) [0..<length xs])"
    by (rule map_filter_upt_cong) (simp add: nth_append)
  have B: "[0..<length (xs @ [x])] = [0..<length xs] @ [length xs]"
    by simp
  show ?thesis
    unfolding first_occurrences_def B filter_append map_append A
    by simp
qed

lemma unique_matches_first_occurrences: "unique_matches ms = first_occurrences ms"
proof (induction ms rule: rev_induct)
  case Nil
  show ?case by (simp add: unique_matches_Nil first_occurrences_def)
next
  case (snoc x xs)
  have "set (first_occurrences xs) = set xs"
    using snoc set_unique_matches[of xs] by simp
  with snoc show ?case
    by (simp add: unique_matches_snoc first_occurrences_snoc)
qed

lemma count_list_distinct: "distinct xs \<Longrightarrow> x \<in> set xs \<Longrightarrow> count_list xs x = 1"
  by (induction xs) auto

lemma extract_citations_eq:
  "extract_citations text =
     map (\<lambda>(citation_type, patterns). (citation_type, unique_matches (match_stream patterns text)))
       citation_patterns"
  by (simp add: extract_citations_def citation_patterns_def)

lemma citation_types_distinct: "distinct (map fst citation_patterns)"
  by (simp add: citation_patterns_def)

lemma map_of_map_values:
  "map_of (map (\<lambda>p. (fst p, f (snd p))) xs) k = map_option f (map_of xs k)"
  by (induction xs) auto

lemma extract_citations_lookup:
  assumes "(citation_type, patterns) \<in> set citation_patterns"
  shows "map_of (extract_citations text) citation_type =
           Some (unique_matches (match_stream patterns text))"
proof -
  have "map_of citation_patterns citation_type = Some patterns"
    using assms citation_types_distinct by simp
  then show ?thesis
    unfolding extract_citations_eq
    using map_of_map_values[where f = "\<lambda>v. unique_matches (match_stream v text)"
        and xs = citation_patterns and k = citation_type]
    by (simp add: split_def)
qed

text \<open>A text that cites one case twice, and the empty text, evaluated.\<close>

lemma twice_stream:
  "match_stream case_patterns ''(2020) 5 SCC 1 AIR 1950 SC 2 (2020) 5 SCC 1'' =
     [''(2020) 5 SCC 1'', ''(2020) 5 SCC 1'', ''AIR 1950 SC 2'']"
  by code_simp

lemma twice_first_occurrences:
  "first_occurrences [''(2020) 5 SCC 1'', ''(2020) 5 SCC 1'', ''AIR 1950 SC 2''] =
     [''(2020) 5 SCC 1'', ''AIR 1950 SC 2'']"
  by code_simp


section \<open>The scenario text of the contract details\<close>

definition scenario_text :: string where
  "scenario_text = ''This Agreement, dated January 1, 2023, is governed by the laws of Delaware.''"

lemma scenario_date: "find_effective_date date_patterns scenario_text = Some ''January 1, 2023''"
  by code_simp

lemma scenario_law: "find_governing_law scenario_text = Some ''Delaware''"
  by code_simp

lemma scenario_effective_date:
  "effective_date (extract_contract_details scenario_text) = Some ''January 1, 2023''"
  by (simp add: extract_contract_details_def scenario_date)

lemma scenario_governing_law:
  "governing_law (generate_legal_summary scenario_text) = Some ''Delaware''"
  by (simp add: generate_legal_summary_def Let_def scenario_law)


section \<open>A keyword that occurs as a whole word is found\<close>

lemma to_lower_cases:
  "to_lower c = c \<or>
   (c \<in> set (upper_letters @ latin1_upper) \<and> to_lower c \<in> set (lower_letters @ latin1_lower))"
proof (cases "map_of (zip (upper_letters @ latin1_upper) (lower_letters @ latin1_lower)) c")
  case None
  then show ?thesis by (simp add: to_lower_def)
next
  case (Some d)
  then have "(c, d) \<in> set (zip (upper_letters @ latin1_upper) (lower_letters @ latin1_lower))"
    by (rule map_of_SomeD)
  then have "c \<in> set (upper_letters @ latin1_upper)" "d \<in> set (lower_letters @ latin1_lower)"
    by (auto dest: set_zip_leftD set_zip_rightD)
  then show ?thesis using Some by (simp add: to_lower_def)
qed

lemma is_word_to_lower: "is_word (to_lower c) = is_word c"
proof -
  have "c \<in> set (upper_letters @ latin1_upper) \<Longrightarrow> is_word c"
    by (auto simp: is_word_def is_upper_def)
  moreover have "to_lower c \<in> set (lower_letters @ latin1_lower) \<Longrightarrow> is_word (to_lower c)"
    by (auto simp: is_word_def is_lower_def)
  ultimately show ?thesis using to_lower_cases[of c] by auto
qed

lemma rmatch_lit:
  "rmatch False (lit w) (p, w @ s, g) = [(rev w @ p, s, g)]"
proof (induction w arbitrary: p rule: lit.induct)
  case 1
  show ?case by simp
next
  case (2 c)
  show ?case by (simp add: one_char_def char_eq_def)
next
  case (3 c v va)
  from 3[of "c # p"] show ?case by (simp add: one_char_def char_eq_def)
qed

lemma rmatch_keyword:
  assumes "at_boundary (p, w @ s, [])" and "at_boundary (rev w @ p, s, [])"
  shows "rmatch False (keyword_pattern w) (p, w @ s, []) = [(rev w @ p, s, [])]"
  using assms by (simp add: keyword_pattern_def rmatch_lit)

lemma search_from_later:
  assumes "match_here ic r False (rev xs @ p) s \<noteq> None"
  shows "search_from ic r False p (xs @ s) \<noteq> None"
  using assms
proof (induction xs arbitrary: p)
  case Nil
  then show ?case by (cases s) (auto split: option.splits)
next
  case (Cons x xs)
  from Cons.prems have "match_here ic r False (rev xs @ (x # p)) s \<noteq> None" by simp
  from Cons.IH[OF this] show ?case by (auto split: option.splits)
qed

lemma word_found_intro:
  assumes "w \<noteq> []" and "is_word (hd w)" and "is_word (last w)"
    and "pre = [] \<or> \<not> is_word (last pre)" and "post = [] \<or> \<not> is_word (hd post)"
  shows "word_found w (pre @ w @ post)"
proof -
  have b1: "at_boundary (rev pre, w @ post, [])"
    using assms(1,2,4)
    by (cases pre rule: rev_cases; cases w) (auto simp: at_boundary_def word_before_def word_after_def)
  have b2: "at_boundary (rev w @ rev pre, post, [])"
    using assms(1,3,5)
    by (cases w rule: rev_cases; cases post) (auto simp: at_boundary_def word_before_def word_after_def)
  have "rmatch False (keyword_pattern w) (rev pre, w @ post, []) = [(rev w @ rev pre, post, [])]"
    using b1 b2 by (rule rmatch_keyword)
  then have "match_here False (keyword_pattern w) False (rev pre @ []) (w @ post) \<noteq> None"
    by (simp add: match_here_def)
  then have "search_from False (keyword_pattern w) False [] (pre @ w @ post) \<noteq> None"
    by (rule search_from_later)
  then show ?thesis
    by (auto simp: word_found_def re_search_def split: option.splits)
qed

lemma confidentiality_synonyms:
  "get_provision_synonyms (str_lower ''confidentiality'') =
     [''non-disclosure'', ''private information'', ''proprietary information'']"
  by code_simp

lemma non_disclosure_found:
  assumes "text = pre @ mid @ post" and "str_lower mid = ''non-disclosure''"
    and "pre = [] \<or> \<not> is_word (last pre)" and "post = [] \<or> \<not> is_word (hd post)"
  shows "provision_found (str_lower text) ''confidentiality''"
proof -
  have split: "str_lower text = str_lower pre @ ''non-disclosure'' @ str_lower post"
    using assms(1,2) by (simp add: str_lower_def)
  have pre: "str_lower pre = [] \<or> \<not> is_word (last (str_lower pre))"
    using assms(3) by (auto simp: str_lower_def last_map is_word_to_lower)
  have post: "str_lower post = [] \<or> \<not> is_word (hd (str_lower post))"
    using assms(4) by (auto simp: str_lower_def hd_map is_word_to_lower)
  have ends: "is_word (hd ''non-disclosure'')" "is_word (last ''non-disclosure'')"
    by code_simp+
  have "word_found ''non-disclosure'' (str_lower text)"
    unfolding split using _ ends pre post by (rule word_found_intro) simp
  then show ?thesis
    by (simp add: provision_found_def Let_def confidentiality_synonyms)
qed

lemma confidentiality_not_missing:
  assumes "text = pre @ mid @ post" and "str_lower mid = ''non-disclosure''"
    and "pre = [] \<or> \<not> is_word (last pre)" and "post = [] \<or> \<not> is_word (hd post)"
  shows "''confidentiality'' \<notin> set (find_missing_provisions text)"
  using non_disclosure_found[OF assms]
  by (simp add: find_missing_provisions_def Let_def)

section \<open>Properties of the word-set similarity\<close>

lemma round_half_even_near: "\<bar>of_int (round_half_even x) - x\<bar> \<le> 1 / 2"
proof -
  have "of_int \<lfloor>x\<rfloor> \<le> x" "x < of_int \<lfloor>x\<rfloor> + 1" by linarith+
  then show ?thesis
    by (auto simp: round_half_even_def Let_def)
qed

lemma round_half_even_nonneg: "0 \<le> x \<Longrightarrow> 0 \<le> round_half_even x"
proof -
  assume "0 \<le> x"
  then have "0 \<le> \<lfloor>x\<rfloor>" by simp
  then show ?thesis by (auto simp: round_half_even_def Let_def)
qed

lemma round_half_even_le: "x \<le> of_int n \<Longrightarrow> round_half_even x \<le> n"
proof -
  assume le: "x \<le> of_int n"
  show ?thesis
  proof (cases "x = of_int n")
    case True
    then show ?thesis by (simp add: round_half_even_def Let_def)
  next
    case False
    with le have "x < of_int n" by simp
    then have "\<lfloor>x\<rfloor> < n" by (simp add: floor_less_iff)
    then show ?thesis by (auto simp: round_half_even_def Let_def)
  qed
qed

lemma round_half_even_half: "0 \<le> x \<Longrightarrow> x \<le> 1 / 2 \<Longrightarrow> round_half_even x = 0"
proof -
  assume a: "0 \<le> x" "x \<le> 1 / 2"
  then have "\<lfloor>x\<rfloor> = 0" by (simp add: floor_eq_iff)
  then show ?thesis using a by (auto simp: round_half_even_def Let_def)
qed

lemma pow2_pos: "0 < pow2 k"
  by (simp add: pow2_def)

lemma pow2_nonpos: "k \<le> 0 \<Longrightarrow> pow2 k = 1 / of_int (2 ^ nat (- k))"
  by (auto simp: pow2_def)

lemma pow2_pos_ge: "0 < k \<Longrightarrow> 2 \<le> pow2 k"
proof -
  assume "0 < k"
  then obtain m where "nat k = Suc m" by (cases "nat k") auto
  then have "(2::rat) ^ nat k = 2 * 2 ^ m" by simp
  moreover have "(1::rat) \<le> 2 ^ m" by simp
  ultimately show ?thesis using \<open>0 < k\<close> by (simp add: pow2_def)
qed

lemma scaled_round_nonneg: "0 \<le> q \<Longrightarrow> 0 \<le> of_int (round_half_even (q / pow2 k)) * pow2 k"
proof -
  assume "0 \<le> q"
  then have "0 \<le> q / pow2 k" using pow2_pos[of k] by simp
  then have "0 \<le> round_half_even (q / pow2 k)" by (rule round_half_even_nonneg)
  then show ?thesis using pow2_pos[of k] by simp
qed

lemma scaled_round_le_one:
  assumes "0 \<le> q" and "q \<le> 1"
  shows "of_int (round_half_even (q / pow2 k)) * pow2 k \<le> 1"
proof (cases "k \<le> 0")
  case True
  define N :: int where "N = 2 ^ nat (- k)"
  have u: "pow2 k = 1 / of_int N" and N: "0 < N"
    using True by (simp_all add: pow2_nonpos N_def)
  have "q / pow2 k = q * of_int N" by (simp add: u)
  also have "\<dots> \<le> of_int N" using assms(2) N by (simp add: mult_le_cancel_right1)
  finally have "round_half_even (q / pow2 k) \<le> N" by (rule round_half_even_le)
  then have "(of_int (round_half_even (q / pow2 k)) :: rat) \<le> of_int N" by simp
  then show ?thesis using N by (simp add: u field_simps)
next
  case False
  then have "2 \<le> pow2 k" by (simp add: pow2_pos_ge)
  then have "q / pow2 k \<le> 1 / 2" using assms by (simp add: field_simps)
  moreover have "0 \<le> q / pow2 k" using assms(1) pow2_pos[of k] by simp
  ultimately have "round_half_even (q / pow2 k) = 0" by (simp add: round_half_even_half)
  then show ?thesis by simp
qed

lemma float_of_bounds:
  assumes "0 \<le> q" and "q \<le> 1"
  shows "0 \<le> float_of q" and "float_of q \<le> 1"
  using assms by (simp_all add: float_of_def Let_def scaled_round_nonneg scaled_round_le_one)

lemma decimal4_bounds:
  assumes "0 \<le> x" and "x \<le> 1"
  shows "0 \<le> (of_int (round_half_even (x * 10000)) :: rat) / 10000"
    and "(of_int (round_half_even (x * 10000)) :: rat) / 10000 \<le> 1"
    and "\<bar>(of_int (round_half_even (x * 10000)) :: rat) / 10000 - x\<bar> \<le> 1 / 20000"
proof -
  have "0 \<le> x * 10000" using assms(1) by simp
  then have "0 \<le> round_half_even (x * 10000)" by (rule round_half_even_nonneg)
  then show "0 \<le> (of_int (round_half_even (x * 10000)) :: rat) / 10000" by simp
  have "x * 10000 \<le> of_int 10000" using assms(2) by simp
  then have "round_half_even (x * 10000) \<le> 10000" by (rule round_half_even_le)
  then have "(of_int (round_half_even (x * 10000)) :: rat) \<le> 10000"
    by (metis of_int_le_iff of_int_numeral)
  then show "(of_int (round_half_even (x * 10000)) :: rat) / 10000 \<le> 1" by simp
  have "\<bar>of_int (round_half_even (x * 10000)) - x * 10000\<bar> \<le> 1 / 2"
    by (rule round_half_even_near)
  then show "\<bar>(of_int (round_half_even (x * 10000)) :: rat) / 10000 - x\<bar> \<le> 1 / 20000"
    by (simp add: abs_le_iff field_simps)
qed

lemma round4_bounds:
  assumes "0 \<le> x" and "x \<le> 1"
  shows "0 \<le> round4 x" and "round4 x \<le> 1"
  unfolding round4_def
  using decimal4_bounds(1,2)[OF assms] by (simp_all add: float_of_bounds)

text \<open>The rounding error of \<open>float_of\<close> below 1.\<close>

lemma bit_length_mono: "m \<le> n \<Longrightarrow> bit_length m \<le> bit_length n"
proof (induction n arbitrary: m rule: bit_length.induct)
  case (1 n)
  show ?case
  proof (cases "m \<le> 0")
    case True
    have "0 \<le> bit_length n"
      by (induction n rule: bit_length.induct) (simp add: bit_length.simps)
    then show ?thesis using True by (simp add: bit_length.simps[of m])
  next
    case False
    with "1.prems" have n: "\<not> n \<le> 0" by simp
    have "m div 2 \<le> n div 2" using "1.prems" by (simp add: zdiv_mono1)
    from "1.IH"[OF n this] show ?thesis
      using False n by (simp add: bit_length.simps[of m] bit_length.simps[of n])
  qed
qed

lemma binade_le_zero:
  assumes "0 < q" and "q \<le> 1"
  shows "binade q \<le> 0"
proof -
  obtain n d where nd: "quotient_of q = (n, d)" by (cases "quotient_of q")
  then have d: "0 < d" and q: "q = of_int n / of_int d"
    by (simp_all add: quotient_of_denom_pos quotient_of_div)
  from assms(2) d have "n \<le> d" by (simp add: q)
  then have "bit_length n \<le> bit_length d" by (rule bit_length_mono)
  then show ?thesis by (simp add: binade_def nd Let_def)
qed

lemma pow2_small: "k \<le> - 52 \<Longrightarrow> pow2 k \<le> 1 / 2 ^ 52"
proof -
  assume k: "k \<le> - 52"
  then have "52 \<le> nat (- k)" by simp
  then have "(2::rat) ^ 52 \<le> 2 ^ nat (- k)" by (intro power_increasing) simp_all
  then show ?thesis using k by (simp add: pow2_def field_simps)
qed

lemma float_of_near:
  assumes "0 \<le> q" and "q \<le> 1"
  shows "\<bar>float_of q - q\<bar> \<le> 1 / 2 ^ 53"
proof (cases "q = 0")
  case True
  then show ?thesis by (simp add: float_of_def)
next
  case False
  with assms(1) have "0 < q" by simp
  then have "binade q \<le> 0" using assms(2) by (rule binade_le_zero)
  then have k: "max (binade q) (- 1022) - 52 \<le> - 52" by simp
  define u where "u = pow2 (max (binade q) (- 1022) - 52)"
  have u: "0 < u" "u \<le> 1 / 2 ^ 52"
    using pow2_pos pow2_small[OF k] by (simp_all add: u_def)
  have "\<bar>of_int (round_half_even (q / u)) - q / u\<bar> \<le> 1 / 2"
    by (rule round_half_even_near)
  then have "\<bar>of_int (round_half_even (q / u)) - q / u\<bar> * u \<le> 1 / 2 * u"
    using u(1) by (simp add: mult_le_cancel_right)
  moreover have "\<bar>of_int (round_half_even (q / u)) - q / u\<bar> * u =
                 \<bar>of_int (round_half_even (q / u)) * u - q\<bar>"
  proof -
    have "\<bar>of_int (round_half_even (q / u)) - q / u\<bar> * u =
          \<bar>(of_int (round_half_even (q / u)) - q / u) * u\<bar>"
      using u(1) by (simp add: abs_mult)
    also have "(of_int (round_half_even (q / u)) - q / u) * u =
               of_int (round_half_even (q / u)) * u - q"
      using u(1) by (simp add: left_diff_distrib)
    finally show ?thesis .
  qed
  ultimately have "\<bar>of_int (round_half_even (q / u)) * u - q\<bar> \<le> 1 / 2 * u" by simp
  also have "\<dots> \<le> 1 / 2 ^ 53" using u(2) by simp
  finally show ?thesis using False by (simp add: float_of_def Let_def u_def)
qed

lemma round4_true_div_near:
  assumes "0 \<le> q" and "q \<le> 1"
  shows "\<bar>round4 (float_of q) - q\<bar> \<le> 1 / 20000 + 1 / 2 ^ 52"
proof -
  let ?x = "float_of q"
  let ?r = "(of_int (round_half_even (?x * 10000)) :: rat) / 10000"
  note x = float_of_bounds[OF assms]
  note r = decimal4_bounds[OF x]
  have "\<bar>?x - q\<bar> \<le> 1 / 2 ^ 53" using assms by (rule float_of_near)
  moreover have "\<bar>?r - ?x\<bar> \<le> 1 / 20000" by (rule r(3))
  moreover have "\<bar>float_of ?r - ?r\<bar> \<le> 1 / 2 ^ 53" using r(1,2) by (rule float_of_near)
  moreover have "(1::rat) / 2 ^ 53 + 1 / 2 ^ 53 = 1 / 2 ^ 52" by simp
  ultimately show ?thesis unfolding round4_def by linarith
qed

lemma finditer_from_Nil_iff:
  "finditer_from ic r adv p s = [] \<longleftrightarrow> search_from ic r adv p s = None"
  by (subst finditer_from.simps) (simp split: option.splits prod.splits)

lemma rmatch_SeqI:
  "mid \<in> set (rmatch ic a st) \<Longrightarrow> st' \<in> set (rmatch ic b mid) \<Longrightarrow>
     st' \<in> set (rmatch ic (Seq a b) st)"
  by auto

lemma rmatch_WordB_I: "at_boundary st \<Longrightarrow> st \<in> set (rmatch ic WordB st)"
  by simp

lemma rmatch_WordCh_fun: "(\<lambda>st. rmatch False WordCh st) = one_char is_word"
  by (rule ext) simp

lemma rmatch_word_pattern_none:
  "s = [] \<or> \<not> is_word (hd s) \<Longrightarrow> rmatch False word_pattern (p, s, g) = []"
  by (cases s) (auto simp: word_pattern_def one_char_def)

lemma search_from_word_none:
  "\<forall>c\<in>set s. \<not> is_word c \<Longrightarrow> search_from False word_pattern adv p s = None"
proof (induction s arbitrary: adv p)
  case Nil
  then show ?case by (simp add: match_here_def rmatch_word_pattern_none)
next
  case (Cons x xs)
  then show ?case by (simp add: match_here_def rmatch_word_pattern_none)
qed

lemma word_set_empty:
  assumes "\<forall>c\<in>set text. \<not> is_word c"
  shows "word_set text = {}"
proof -
  have "\<forall>c\<in>set (str_lower text). \<not> is_word c"
    using assms by (auto simp: str_lower_def is_word_to_lower)
  then have "search_from False word_pattern False [] (str_lower text) = None"
    by (rule search_from_word_none)
  then show ?thesis
    by (simp add: word_set_def re_findall_def re_finditer_def finditer_from_Nil_iff)
qed

lemma rep_opt_self: "st \<in> set (rep_opt n step st)"
  by (cases n) auto

lemma one_char_word: "is_word c \<Longrightarrow> one_char is_word (p, c # xs, g) = [(c # p, xs, g)]"
  by (simp add: one_char_def)

lemma rep_opt_run:
  "\<forall>c\<in>set run. is_word c \<Longrightarrow> length run \<le> n \<Longrightarrow>
     (rev run @ p, s, g) \<in> set (rep_opt n (\<lambda>st. rmatch False WordCh st) (p, run @ s, g))"
proof (induction run arbitrary: n p)
  case Nil
  then show ?case by (simp add: rep_opt_self)
next
  case (Cons c cs)
  then obtain m where n: "n = Suc m" and m: "length cs \<le> m" by (cases n) auto
  from Cons.prems have "\<forall>c\<in>set cs. is_word c" and c: "is_word c" by auto
  from Cons.IH[OF this(1) m, of "c # p"] show ?case
    unfolding rmatch_WordCh_fun by (simp add: n one_char_word[OF c])
qed

lemma rmatch_word_run:
  assumes "run \<noteq> []" and "\<forall>c\<in>set run. is_word c"
  shows "(rev run @ p, s, g) \<in> set (rmatch False (plus WordCh) (p, run @ s, g))"
proof -
  from assms obtain c cs where run: "run = c # cs" and c: "is_word c" and cs: "\<forall>c\<in>set cs. is_word c"
    by (cases run) auto
  have "(rev cs @ c # p, s, g) \<in>
          set (rep_opt (length (cs @ s)) (\<lambda>st. rmatch False WordCh st) (c # p, cs @ s, g))"
    using cs by (intro rep_opt_run) auto
  then have "(rev cs @ c # p, s, g) \<in>
          set (rep_opt (length (cs @ s)) (one_char is_word) (c # p, cs @ s, g))"
    unfolding rmatch_WordCh_fun .
  then show ?thesis
    by (simp add: run one_char_word[OF c] rep_bound_def rmatch_WordCh_fun)
qed

lemma rmatch_word_pattern_run:
  assumes "run \<noteq> []" and "\<forall>c\<in>set run. is_word c"
    and "\<not> word_before p" and "\<not> word_after s"
  shows "(rev run @ p, s, g) \<in> set (rmatch False word_pattern (p, run @ s, g))"
proof -
  have b1: "at_boundary (p, run @ s, g)"
    using assms(1,2,3) by (cases run) (auto simp: at_boundary_def word_after_def)
  have b2: "at_boundary (rev run @ p, s, g)"
    using assms(1,2,4) by (cases run rule: rev_cases) (auto simp: at_boundary_def word_before_def)
  have "(rev run @ p, s, g) \<in> set (rmatch False (plus WordCh) (p, run @ s, g))"
    using assms(1,2) by (rule rmatch_word_run)
  then have "(rev run @ p, s, g) \<in> set (rmatch False (Seq (plus WordCh) WordB) (p, run @ s, g))"
    using rmatch_WordB_I[OF b2] by (rule rmatch_SeqI)
  with rmatch_WordB_I[OF b1]
  have "(rev run @ p, s, g) \<in>
          set (rmatch False (Seq WordB (Seq (plus WordCh) WordB)) (p, run @ s, g))"
    by (rule rmatch_SeqI)
  then show ?thesis
    by (simp only: word_pattern_def seqs.simps)
qed

lemma search_from_word_some:
  assumes "\<exists>c\<in>set s. is_word c"
  shows "search_from False word_pattern False [] s \<noteq> None"
proof -
  define pre where "pre = takeWhile (\<lambda>c. \<not> is_word c) s"
  define rest where "rest = dropWhile (\<lambda>c. \<not> is_word c) s"
  define run where "run = takeWhile is_word rest"
  define post where "post = dropWhile is_word rest"
  have s: "s = pre @ run @ post"
    by (simp add: pre_def rest_def run_def post_def)
  have rest_ne: "rest \<noteq> []"
    using assms by (auto simp: rest_def dropWhile_eq_Nil_conv)
  then have "is_word (hd rest)"
    unfolding rest_def using hd_dropWhile[of "\<lambda>c. \<not> is_word c" s] by auto
  then have run_ne: "run \<noteq> []"
    using rest_ne by (cases rest) (auto simp: run_def)
  have run_word: "\<forall>c\<in>set run. is_word c"
    unfolding run_def by (auto dest: set_takeWhileD)
  have "\<forall>c\<in>set pre. \<not> is_word c"
    unfolding pre_def by (auto dest: set_takeWhileD)
  then have before: "\<not> word_before (rev pre @ [])"
    by (cases pre rule: rev_cases) (auto simp: word_before_def)
  have after: "\<not> word_after post"
  proof (cases "post = []")
    case True
    then show ?thesis by (simp add: word_after_def)
  next
    case False
    then have "\<not> is_word (hd post)"
      unfolding post_def by (rule hd_dropWhile)
    with False show ?thesis by (cases post) (auto simp: word_after_def)
  qed
  have "(rev run @ rev pre @ [], post, []) \<in>
          set (rmatch False word_pattern (rev pre @ [], run @ post, []))"
    using run_ne run_word before after by (rule rmatch_word_pattern_run)
  then have "rmatch False word_pattern (rev pre @ [], run @ post, []) \<noteq> []"
    by auto
  then have "match_here False word_pattern False (rev pre @ []) (run @ post) \<noteq> None"
    by (auto simp: match_here_def split: list.splits)
  then show ?thesis
    unfolding s by (rule search_from_later)
qed

lemma word_set_nonempty:
  assumes "\<exists>c\<in>set text. is_word c"
  shows "word_set text \<noteq> {}"
proof -
  have "\<exists>c\<in>set (str_lower text). is_word c"
    using assms by (auto simp: str_lower_def is_word_to_lower)
  then have "search_from False word_pattern False [] (str_lower text) \<noteq> None"
    by (rule search_from_word_some)
  then show ?thesis
    by (simp add: word_set_def re_findall_def re_finditer_def finditer_from_Nil_iff)
qed

lemma text_similarity_no_words:
  assumes "\<forall>c\<in>set text1 \<union> set text2. \<not> is_word c"
  shows "calculate_text_similarity text1 text2 = 0"
proof -
  have "\<forall>c\<in>set text1. \<not> is_word c" and "\<forall>c\<in>set text2. \<not> is_word c"
    using assms by auto
  then have "word_set text1 = {}" "word_set text2 = {}"
    by (simp_all add: word_set_empty)
  then show ?thesis by (simp add: calculate_text_similarity_def)
qed

lemma text_similarity_words:
  assumes "\<exists>c\<in>set text1 \<union> set text2. is_word c"
  shows "calculate_text_similarity text1 text2 = round4 (float_of (jaccard_ratio text1 text2))"
    and "0 \<le> jaccard_ratio text1 text2" and "jaccard_ratio text1 text2 \<le> 1"
proof -
  have fin: "finite (word_set text1 \<union> word_set text2)"
    by (simp add: word_set_def)
  have "word_set text1 \<noteq> {} \<or> word_set text2 \<noteq> {}"
    using assms word_set_nonempty by auto
  then have "word_set text1 \<union> word_set text2 \<noteq> {}" by auto
  with fin have pos: "0 < card (word_set text1 \<union> word_set text2)"
    by (simp add: card_gt_0_iff)
  then show "calculate_text_similarity text1 text2 = round4 (float_of (jaccard_ratio text1 text2))"
    by (simp add: calculate_text_similarity_def jaccard_ratio_def true_div_def Let_def)
  show "0 \<le> jaccard_ratio text1 text2"
    by (simp add: jaccard_ratio_def)
  have "card (word_set text1 \<inter> word_set text2) \<le> card (word_set text1 \<union> word_set text2)"
    using fin by (intro card_mono) auto
  then have "(of_nat (card (word_set text1 \<inter> word_set text2)) :: rat)
               \<le> of_nat (card (word_set text1 \<union> word_set text2))"
    by (rule of_nat_mono)
  then show "jaccard_ratio text1 text2 \<le> 1"
    using pos by (simp add: jaccard_ratio_def)
qed

text \<open>Two short texts, evaluated.\<close>

lemma third_similarity:
  "calculate_text_similarity ''a'' ''a b c'' = 6004199023210345 / 18014398509481984"
  by code_simp

lemma third_float: "float_of (1 / 3) = 6004799503160661 / 18014398509481984"
  by code_simp

lemma third_rounded: "round4 (float_of (1 / 3)) = float_of (3333 / 10000)"
  by code_simp

lemma third_ratio: "jaccard_ratio ''a'' ''a b c'' = 1 / 3"
  by code_simp

section \<open>The extractors on the empty text\<close>








section \<open>Properties of the citation network\<close>

subsection \<open>Dictionaries in insertion order\<close>

lemma map_fst_dict_set:
  "map fst (dict_set d k v) = (if k \<in> set (map fst d) then map fst d else map fst d @ [k])"
  by (induction d) (fastforce simp: image_iff)+

lemma set_fst_dict_set: "set (map fst (dict_set d k v)) = insert k (set (map fst d))"
  by (auto simp: map_fst_dict_set)

lemma distinct_dict_set: "distinct (map fst d) \<Longrightarrow> distinct (map fst (dict_set d k v))"
  by (simp add: map_fst_dict_set)

lemma map_of_dict_set: "map_of (dict_set d k v) = (map_of d)(k \<mapsto> v)"
  by (induction d) (auto simp: fun_eq_iff)

lemma dict_set_fresh: "k \<notin> set (map fst d) \<Longrightarrow> dict_set d k v = d @ [(k, v)]"
  by (induction d) auto

lemma map_fst_dict_append:
  "map fst (dict_append d k v) = (if k \<in> set (map fst d) then map fst d else map fst d @ [k])"
  by (induction d) (fastforce simp: image_iff)+

lemma distinct_dict_append: "distinct (map fst d) \<Longrightarrow> distinct (map fst (dict_append d k v))"
  by (simp add: map_fst_dict_append)

lemma map_of_dict_append:
  "map_of (dict_append d k v) =
     (map_of d)(k \<mapsto> (case map_of d k of None \<Rightarrow> [] | Some vs \<Rightarrow> vs) @ [v])"
  by (induction d) (auto simp: fun_eq_iff)

lemma fold_nested:
  "fold (\<lambda>(a, bs) s. fold (\<lambda>b s. f a b s) bs s) xs s =
     fold (\<lambda>(a, b) s. f a b s) (concat (map (\<lambda>(a, bs). map (Pair a) bs) xs)) s"
proof (induction xs arbitrary: s)
  case Nil
  show ?case by simp
next
  case (Cons x xs)
  obtain a bs where x: "x = (a, bs)" by (cases x)
  have "fold (\<lambda>b s. f a b s) bs s = fold (\<lambda>(a, b) s. f a b s) (map (Pair a) bs) s" for s
    by (induction bs arbitrary: s) auto
  then show ?case using Cons.IH by (simp add: x)
qed

text \<open>The index built from a list of (key, document) pairs.\<close>

lemma map_of_fold_dict_append:
  "map_of (fold (\<lambda>(k, n) index. dict_append index k n) ps []) k =
     (if filter (\<lambda>p. fst p = k) ps = [] then None
      else Some (map snd (filter (\<lambda>p. fst p = k) ps)))"
proof (induction ps rule: rev_induct)
  case Nil
  show ?case by simp
next
  case (snoc p ps)
  obtain k' n where p: "p = (k', n)" by (cases p)
  show ?case
    using snoc.IH by (auto simp: p map_of_dict_append)
qed

lemma distinct_fold_dict_append:
  "distinct (map fst (fold (\<lambda>(k, n) index. dict_append index k n) ps []))"
proof (induction ps rule: rev_induct)
  case Nil
  show ?case by simp
next
  case (snoc p ps)
  then show ?case by (cases p) (simp add: distinct_dict_append)
qed

subsection \<open>Nodes and edges of the graph operations\<close>

lemma fold_fold_concat: "fold (\<lambda>x s. fold h (t x) s) xs s = fold h (concat (map t xs)) s"
  by (induction xs arbitrary: s) auto

lemma add_node_names:
  "node_names (add_node G n t) =
     (if n \<in> set (node_names G) then node_names G else node_names G @ [n])"
  by (simp add: add_node_def node_names_def map_fst_dict_set)

lemma add_node_edges: "g_edges (add_node G n t) = g_edges G"
  by (simp add: add_node_def)

lemma ensure_node_names:
  "node_names (ensure_node G n) =
     (if n \<in> set (node_names G) then node_names G else node_names G @ [n])"
  by (simp add: ensure_node_def node_names_def has_node_def)

lemma ensure_node_edges: "g_edges (ensure_node G n) = g_edges G"
  by (simp add: ensure_node_def)

lemma add_edge_names:
  "set (node_names (add_edge G u v)) = insert u (insert v (set (node_names G)))"
  "distinct (node_names G) \<Longrightarrow> distinct (node_names (add_edge G u v))"
  by (auto simp: add_edge_def Let_def node_names_def ensure_node_def has_node_def)

lemma add_edge_keys:
  "edge_keys (add_edge G u v) =
     (if (u, v) \<in> set (edge_keys G) then edge_keys G else edge_keys G @ [(u, v)])"
  by (simp add: add_edge_def Let_def edge_keys_def ensure_node_edges)

lemma add_edge_untagged: "untagged G \<Longrightarrow> untagged (add_edge G u v)"
  by (simp add: add_edge_def Let_def untagged_def ensure_node_edges)

lemma add_node_edge_keys: "edge_keys (add_node G n t) = edge_keys G"
  by (simp add: edge_keys_def add_node_edges)

lemma add_node_untagged: "untagged (add_node G n t) = untagged G"
  by (simp add: untagged_def add_node_edges)

lemma has_node_names: "has_node G n = (n \<in> set (node_names G))"
  by (simp add: has_node_def node_names_def)

lemma add_citation_names:
  "set (node_names (add_citation name ct c G)) =
     insert name (insert (citation_str ct c) (set (node_names G)))"
  "distinct (node_names G) \<Longrightarrow> distinct (node_names (add_citation name ct c G))"
  by (auto simp: add_citation_def Let_def add_edge_names add_node_names has_node_names)

lemma add_citation_keys:
  "set (edge_keys (add_citation name ct c G)) = insert (name, citation_str ct c) (set (edge_keys G))"
  "distinct (edge_keys G) \<Longrightarrow> distinct (edge_keys (add_citation name ct c G))"
  by (auto simp: add_citation_def Let_def add_edge_keys add_node_edge_keys)

lemma add_citation_untagged: "untagged G \<Longrightarrow> untagged (add_citation name ct c G)"
  by (simp add: add_citation_def Let_def add_edge_untagged add_node_untagged)

lemma citation_keys_pairs:
  "citation_keys citations = map (\<lambda>(ct, c). citation_str ct c) (citation_pairs citations)"
  by (induction citations) (auto simp: citation_keys_def citation_pairs_def)

lemma fold_add_citation:
  "fold (\<lambda>(ct, found) G. fold (\<lambda>c G. add_citation name ct c G) found G) citations G =
     fold (\<lambda>(ct, c) G. add_citation name ct c G) (citation_pairs citations) G"
proof -
  have "(\<lambda>(ct, found) G. fold (\<lambda>c G. add_citation name ct c G) found G) =
        (\<lambda>x G. fold (\<lambda>(ct, c) G. add_citation name ct c G) (case x of (ct, found) \<Rightarrow> map (Pair ct) found) G)"
    by (auto simp: fun_eq_iff fold_map comp_def)
  then show ?thesis
    unfolding citation_pairs_def by (simp only: fold_fold_concat)
qed

lemma fold_pairs_names:
  "name \<in> set (node_names G) \<Longrightarrow>
   set (node_names (fold (\<lambda>(ct, c) G. add_citation name ct c G) ps G)) =
     set (node_names G) \<union> set (map (\<lambda>(ct, c). citation_str ct c) ps)"
  by (induction ps arbitrary: G) (auto simp: add_citation_names)

lemma fold_pairs_keys:
  "set (edge_keys (fold (\<lambda>(ct, c) G. add_citation name ct c G) ps G)) =
     set (edge_keys G) \<union> set (map (\<lambda>(ct, c). (name, citation_str ct c)) ps)"
  by (induction ps arbitrary: G) (auto simp: add_citation_keys)

lemma fold_pairs_distinct_names:
  "distinct (node_names G) \<Longrightarrow>
   distinct (node_names (fold (\<lambda>(ct, c) G. add_citation name ct c G) ps G))"
  by (induction ps arbitrary: G) (auto simp: add_citation_names)

lemma fold_pairs_distinct_keys:
  "distinct (edge_keys G) \<Longrightarrow>
   distinct (edge_keys (fold (\<lambda>(ct, c) G. add_citation name ct c G) ps G))"
  by (induction ps arbitrary: G) (auto simp: add_citation_keys)

lemma fold_pairs_untagged:
  "untagged G \<Longrightarrow> untagged (fold (\<lambda>(ct, c) G. add_citation name ct c G) ps G)"
  by (induction ps arbitrary: G) (auto simp: add_citation_untagged)

subsection \<open>The first loop\<close>

lemma add_document_eq:
  "add_document d (G, dc) =
     (document_graph d G, dict_set dc (doc_name d) (extract_citations (doc_text d)))"
  by (simp add: add_document_def Let_def fold_add_citation document_graph_def)

lemma fold_add_document:
  "fold add_document docs (G, dc) =
     (fold document_graph docs G,
      fold (\<lambda>d dc. dict_set dc (doc_name d) (extract_citations (doc_text d))) docs dc)"
  by (induction docs arbitrary: G dc) (simp_all add: add_document_eq)

lemma doc_keys_pairs:
  "doc_keys d = map (\<lambda>(ct, c). citation_str ct c) (citation_pairs (extract_citations (doc_text d)))"
  by (simp add: doc_keys_def citation_keys_pairs)

lemma document_graph_names:
  "set (node_names (document_graph d G)) =
     insert (doc_name d) (set (node_names G)) \<union> set (doc_keys d)"
  "distinct (node_names G) \<Longrightarrow> distinct (node_names (document_graph d G))"
proof -
  have "doc_name d \<in> set (node_names (add_node G (doc_name d) ''document''))"
    by (simp add: add_node_names)
  from fold_pairs_names[OF this]
  show "set (node_names (document_graph d G)) =
          insert (doc_name d) (set (node_names G)) \<union> set (doc_keys d)"
    unfolding document_graph_def doc_keys_pairs by (auto simp: add_node_names)
  show "distinct (node_names G) \<Longrightarrow> distinct (node_names (document_graph d G))"
    unfolding document_graph_def
    by (rule fold_pairs_distinct_names) (simp add: add_node_names)
qed

lemma document_graph_keys:
  "set (edge_keys (document_graph d G)) =
     set (edge_keys G) \<union> (\<lambda>k. (doc_name d, k)) ` set (doc_keys d)"
  "distinct (edge_keys G) \<Longrightarrow> distinct (edge_keys (document_graph d G))"
  "untagged G \<Longrightarrow> untagged (document_graph d G)"
proof -
  show "set (edge_keys (document_graph d G)) =
          set (edge_keys G) \<union> (\<lambda>k. (doc_name d, k)) ` set (doc_keys d)"
    unfolding document_graph_def doc_keys_pairs fold_pairs_keys
    by (auto simp: add_node_edge_keys)
  show "distinct (edge_keys G) \<Longrightarrow> distinct (edge_keys (document_graph d G))"
    unfolding document_graph_def
    by (rule fold_pairs_distinct_keys) (simp add: add_node_edge_keys)
  show "untagged G \<Longrightarrow> untagged (document_graph d G)"
    unfolding document_graph_def
    by (rule fold_pairs_untagged) (simp add: add_node_untagged)
qed

lemma fold_document_graph_names:
  "set (node_names (fold document_graph docs G)) =
     set (node_names G) \<union> doc_name ` set docs \<union> (\<Union>d\<in>set docs. set (doc_keys d))"
  by (induction docs arbitrary: G) (auto simp: document_graph_names)

lemma fold_document_graph_distinct_names:
  "distinct (node_names G) \<Longrightarrow> distinct (node_names (fold document_graph docs G))"
  by (induction docs arbitrary: G) (auto simp: document_graph_names)

lemma fold_document_graph_keys:
  "set (edge_keys (fold document_graph docs G)) =
     set (edge_keys G) \<union> (\<Union>d\<in>set docs. (\<lambda>k. (doc_name d, k)) ` set (doc_keys d))"
  by (induction docs arbitrary: G) (auto simp: document_graph_keys)

lemma fold_document_graph_distinct_keys:
  "distinct (edge_keys G) \<Longrightarrow> distinct (edge_keys (fold document_graph docs G))"
  by (induction docs arbitrary: G) (auto simp: document_graph_keys)

lemma fold_document_graph_untagged:
  "untagged G \<Longrightarrow> untagged (fold document_graph docs G)"
  by (induction docs arbitrary: G) (auto simp: document_graph_keys)

lemma fold_dict_set_fresh:
  "distinct (map fst dc @ map doc_name docs) \<Longrightarrow>
   fold (\<lambda>d dc. dict_set dc (doc_name d) (extract_citations (doc_text d))) docs dc =
     dc @ map document_entry docs"
proof (induction docs arbitrary: dc)
  case Nil
  show ?case by simp
next
  case (Cons d docs)
  from Cons.prems have fresh: "doc_name d \<notin> set (map fst dc)" by auto
  have step: "dict_set dc (doc_name d) (extract_citations (doc_text d)) = dc @ [document_entry d]"
    using dict_set_fresh[OF fresh] by (simp add: document_entry_def)
  have "distinct (map fst (dc @ [document_entry d]) @ map doc_name docs)"
    using Cons.prems by (auto simp: document_entry_def)
  from Cons.IH[OF this] show ?case by (simp add: step)
qed

subsection \<open>The second loop\<close>

lemma citation_keys_Cons:
  "citation_keys ((ct, found) # citations) = map (citation_str ct) found @ citation_keys citations"
  by (simp add: citation_keys_def)

lemma citation_keys_Nil: "citation_keys [] = []"
  by (simp add: citation_keys_def)

lemma fold_found:
  "fold (\<lambda>c index. dict_append index (citation_str ct c) name) found index =
     fold (\<lambda>(k, n) index. dict_append index k n) (map (\<lambda>k. (k, name)) (map (citation_str ct) found)) index"
  by (induction found arbitrary: index) auto

lemma fold_citations:
  "fold (\<lambda>(ct, found) index.
           fold (\<lambda>c index. dict_append index (citation_str ct c) name) found index)
     citations index =
   fold (\<lambda>(k, n) index. dict_append index k n) (map (\<lambda>k. (k, name)) (citation_keys citations)) index"
proof (induction citations arbitrary: index)
  case Nil
  show ?case by (simp add: citation_keys_Nil)
next
  case (Cons x citations)
  obtain ct found where x: "x = (ct, found)" by (cases x)
  show ?case
    unfolding x citation_keys_Cons map_append fold_append
    using Cons.IH by (simp add: fold_found)
qed

lemma key_pairs_Cons:
  "key_pairs ((name, citations) # dc) = map (\<lambda>k. (k, name)) (citation_keys citations) @ key_pairs dc"
  by (simp add: key_pairs_def)

lemma fold_doc_citations:
  "fold (\<lambda>(name, citations) index.
           fold (\<lambda>(ct, found) index.
                   fold (\<lambda>c index. dict_append index (citation_str ct c) name) found index)
             citations index)
     dc index =
   fold (\<lambda>(k, n) index. dict_append index k n) (key_pairs dc) index"
proof (induction dc arbitrary: index)
  case Nil
  show ?case by (simp add: key_pairs_def)
next
  case (Cons x dc)
  obtain name citations where x: "x = (name, citations)" by (cases x)
  show ?case
    unfolding x key_pairs_Cons fold_append
    using Cons.IH by (simp add: fold_citations)
qed

lemma citation_to_docs_eq:
  "citation_to_docs dc = fold (\<lambda>(k, n) index. dict_append index k n) (key_pairs dc) []"
  unfolding citation_to_docs_def by (rule fold_doc_citations)

lemma key_pairs_entries:
  "key_pairs (map document_entry docs) =
     concat (map (\<lambda>d. map (\<lambda>k. (k, doc_name d)) (doc_keys d)) docs)"
  by (induction docs) (simp_all add: key_pairs_def document_entry_def doc_keys_def)

subsection \<open>The third loop\<close>

lemma fold_inner_edges:
  "fold (\<lambda>j G. add_edge_shared G u (citing ! j) c) js G =
     fold add_triple (map (\<lambda>j. (u, citing ! j, c)) js) G"
  by (induction js arbitrary: G) (simp_all add: add_triple_def)

lemma fold_outer_edges:
  "fold (\<lambda>i G. fold (\<lambda>j G. add_edge_shared G (citing ! i) (citing ! j) c) [Suc i..<n] G) is G =
     fold add_triple (concat (map (\<lambda>i. map (\<lambda>j. (citing ! i, citing ! j, c)) [Suc i..<n]) is)) G"
  by (induction "is" arbitrary: G) (simp_all add: fold_inner_edges)

lemma citing_triples_short: "length citing \<le> 1 \<Longrightarrow> citing_triples (c, citing) = []"
proof -
  assume "length citing \<le> 1"
  then have "citing = [] \<or> (\<exists>x. citing = [x])" by (cases citing) auto
  then show ?thesis by (auto simp: citing_triples_def)
qed

lemma connect_citing_eq: "connect_citing entry G = fold add_triple (citing_triples entry) G"
proof (cases entry)
  case (Pair c citing)
  show ?thesis
  proof (cases "length citing > 1")
    case True
    then show ?thesis
      by (simp add: Pair connect_citing_def citing_triples_def fold_outer_edges)
  next
    case False
    then have "length citing \<le> 1" by simp
    then show ?thesis
      using False by (simp add: Pair connect_citing_def citing_triples_short)
  qed
qed

lemma fold_connect_citing:
  "fold connect_citing index G = fold add_triple (concat (map citing_triples index)) G"
  by (induction index arbitrary: G) (simp_all add: connect_citing_eq)

lemma add_triple_edges: "g_edges (add_triple t G) = dict_set (g_edges G) (fst (triple_edge t)) (snd (triple_edge t))"
  by (cases t) (simp add: add_triple_def triple_edge_def add_edge_shared_def Let_def ensure_node_edges)

lemma fold_add_triple_distinct:
  "distinct (edge_keys G) \<Longrightarrow> distinct (edge_keys (fold add_triple ts G))"
  by (induction ts arbitrary: G) (simp_all add: edge_keys_def add_triple_edges distinct_dict_set)

lemma fold_add_triple_map_of:
  "map_of (g_edges (fold add_triple ts G)) = map_of (g_edges G) ++ map_of (rev (map triple_edge ts))"
proof (induction ts arbitrary: G)
  case Nil
  show ?case by simp
next
  case (Cons t ts)
  obtain k v where t: "triple_edge t = (k, v)" by (cases "triple_edge t")
  have "map_of (g_edges (add_triple t G)) = (map_of (g_edges G))(k \<mapsto> v)"
    by (simp add: add_triple_edges t map_of_dict_set)
  then show ?case
    by (simp add: Cons.IH t map_add_upd_left fun_eq_iff map_add_def split: option.splits)
qed

lemma filter_distinct_key:
  "distinct (map fst xs) \<Longrightarrow>
   filter (\<lambda>e. fst e = k) xs = (case map_of xs k of None \<Rightarrow> [] | Some y \<Rightarrow> [(k, y)])"
proof (induction xs)
  case Nil
  show ?case by simp
next
  case (Cons x xs)
  obtain k' y' where x: "x = (k', y')" by (cases x)
  show ?case
  proof (cases "k' = k")
    case True
    with Cons.prems have "k \<notin> fst ` set xs" by (simp add: x)
    then have "filter (\<lambda>e. fst e = k) xs = []" by (auto simp: filter_empty_conv)
    then show ?thesis using True by (simp add: x)
  next
    case False
    then show ?thesis using Cons by (simp add: x)
  qed
qed

subsection \<open>The citation keys of a document are distinct\<close>

lemma distinct_doc_keys: "distinct (doc_keys d)"
  unfolding doc_keys_def extract_citations_eq citation_patterns_def
  by (auto simp: citation_keys_def distinct_map distinct_unique_matches inj_on_def citation_str_def)

lemma distinct_concat_nth:
  assumes "\<forall>xs\<in>set xss. distinct xs"
    and "\<forall>i j. i < j \<and> j < length xss \<longrightarrow> set (xss ! i) \<inter> set (xss ! j) = {}"
  shows "distinct (concat xss)"
  using assms
proof (induction xss)
  case Nil
  show ?case by simp
next
  case (Cons xs xss)
  have d: "distinct xs" using Cons.prems(1) by simp
  have "\<forall>i j. i < j \<and> j < length xss \<longrightarrow> set (xss ! i) \<inter> set (xss ! j) = {}"
  proof (intro allI impI)
    fix i j assume "i < j \<and> j < length xss"
    then have "Suc i < Suc j \<and> Suc j < length (xs # xss)" by simp
    from Cons.prems(2)[rule_format, OF this] show "set (xss ! i) \<inter> set (xss ! j) = {}" by simp
  qed
  with Cons.prems(1) have rest: "distinct (concat xss)" by (intro Cons.IH) auto
  have "set xs \<inter> set ys = {}" if "ys \<in> set xss" for ys
  proof -
    from that obtain j where j: "j < length xss" "xss ! j = ys" by (auto simp: in_set_conv_nth)
    then have "0 < Suc j \<and> Suc j < length (xs # xss)" by simp
    from Cons.prems(2)[rule_format, OF this] show ?thesis using j by simp
  qed
  then show ?case using d rest by auto
qed

subsection \<open>The network of documents with distinct names\<close>

lemma build_citation_network_eq:
  assumes "distinct (map doc_name docs)"
  shows "build_citation_network docs =
           fold add_triple (network_triples docs) (fold document_graph docs empty_graph)"
proof -
  have "distinct (map fst ([] :: (string \<times> (string \<times> string list) list) list) @ map doc_name docs)"
    using assms by simp
  from fold_dict_set_fresh[OF this]
  show ?thesis
    by (simp add: build_citation_network_def fold_add_document fold_connect_citing
        network_triples_def)
qed

lemma citation_index_eq:
  "citation_to_docs (map document_entry docs) =
     fold (\<lambda>(k, n) index. dict_append index k n) (key_name_pairs docs) []"
  by (simp add: citation_to_docs_eq key_pairs_entries key_name_pairs_def)

lemma map_fst_key_name_pairs: "map fst (key_name_pairs docs) = concat (map doc_keys docs)"
  by (induction docs) (simp_all add: key_name_pairs_def comp_def)

lemma index_entry:
  assumes "(c, citing) \<in> set (citation_to_docs (map document_entry docs))"
  shows "citing = map snd (filter (\<lambda>p. fst p = c) (key_name_pairs docs))"
proof -
  have "distinct (map fst (citation_to_docs (map document_entry docs)))"
    unfolding citation_index_eq by (rule distinct_fold_dict_append)
  with assms have "map_of (citation_to_docs (map document_entry docs)) c = Some citing"
    by simp
  then show ?thesis
    unfolding citation_index_eq map_of_fold_dict_append by (simp split: if_splits)
qed

lemma index_has:
  assumes "filter (\<lambda>p. fst p = c) (key_name_pairs docs) \<noteq> []"
  shows "(c, map snd (filter (\<lambda>p. fst p = c) (key_name_pairs docs)))
           \<in> set (citation_to_docs (map document_entry docs))"
proof -
  have "map_of (citation_to_docs (map document_entry docs)) c =
          Some (map snd (filter (\<lambda>p. fst p = c) (key_name_pairs docs)))"
    unfolding citation_index_eq map_of_fold_dict_append using assms by simp
  then show ?thesis by (rule map_of_SomeD)
qed

subsection \<open>Documents without a shared citation\<close>

lemma no_shared_distinct_keys:
  assumes "\<forall>i j. i < j \<and> j < length docs \<longrightarrow>
             set (doc_keys (docs ! i)) \<inter> set (doc_keys (docs ! j)) = {}"
  shows "distinct (concat (map doc_keys docs))"
proof (rule distinct_concat_nth)
  show "\<forall>xs\<in>set (map doc_keys docs). distinct xs"
    by (auto simp: distinct_doc_keys)
  show "\<forall>i j. i < j \<and> j < length (map doc_keys docs) \<longrightarrow>
          set (map doc_keys docs ! i) \<inter> set (map doc_keys docs ! j) = {}"
    using assms by auto
qed

lemma no_shared_no_triples:
  assumes "distinct (concat (map doc_keys docs))"
  shows "network_triples docs = []"
proof -
  have d: "distinct (map fst (key_name_pairs docs))"
    using assms by (simp add: map_fst_key_name_pairs)
  have "citing_triples entry = []"
    if "entry \<in> set (citation_to_docs (map document_entry docs))" for entry
  proof -
    obtain c citing where e: "entry = (c, citing)" by (cases entry)
    from that have "citing = map snd (filter (\<lambda>p. fst p = c) (key_name_pairs docs))"
      unfolding e by (rule index_entry)
    then have "length citing \<le> 1"
      by (simp add: filter_distinct_key[OF d] split: option.splits)
    then show ?thesis unfolding e by (rule citing_triples_short)
  qed
  then show ?thesis by (simp add: network_triples_def)
qed

lemma empty_graph_facts:
  "node_names empty_graph = []" "edge_keys empty_graph = []" "untagged empty_graph"
  by (simp_all add: node_names_def edge_keys_def untagged_def empty_graph_def)

lemma untagged_no_co_citation: "untagged G \<Longrightarrow> co_citation_edges G = []"
  by (auto simp: untagged_def co_citation_edges_def list_all_iff filter_empty_conv)

lemma no_shared_network:
  assumes names: "distinct (map doc_name docs)"
    and keys: "\<forall>i j. i < j \<and> j < length docs \<longrightarrow>
             set (doc_keys (docs ! i)) \<inter> set (doc_keys (docs ! j)) = {}"
    and apart: "doc_name ` set docs \<inter> (\<Union>d\<in>set docs. set (doc_keys d)) = {}"
  shows "set (node_names (build_citation_network docs)) =
           doc_name ` set docs \<union> (\<Union>d\<in>set docs. set (doc_keys d))"
    and "distinct (node_names (build_citation_network docs))"
    and "length (g_nodes (build_citation_network docs)) =
           length docs + sum_list (map (\<lambda>d. length (doc_keys d)) docs)"
    and "co_citation_edges (build_citation_network docs) = []"
    and "set (edge_keys (build_citation_network docs)) =
           (\<Union>d\<in>set docs. (\<lambda>k. (doc_name d, k)) ` set (doc_keys d))"
proof -
  let ?G = "build_citation_network docs"
  have dk: "distinct (concat (map doc_keys docs))"
    using keys by (rule no_shared_distinct_keys)
  have G: "?G = fold document_graph docs empty_graph"
    by (simp add: build_citation_network_eq[OF names] no_shared_no_triples[OF dk])
  show nodes: "set (node_names ?G) = doc_name ` set docs \<union> (\<Union>d\<in>set docs. set (doc_keys d))"
    by (simp add: G fold_document_graph_names empty_graph_facts)
  show dn: "distinct (node_names ?G)"
    by (simp add: G fold_document_graph_distinct_names empty_graph_facts)
  show "co_citation_edges ?G = []"
    by (simp add: G fold_document_graph_untagged empty_graph_facts untagged_no_co_citation)
  show "set (edge_keys ?G) = (\<Union>d\<in>set docs. (\<lambda>k. (doc_name d, k)) ` set (doc_keys d))"
    by (simp add: G fold_document_graph_keys empty_graph_facts)
  have "length (g_nodes ?G) = length (node_names ?G)"
    by (simp add: node_names_def)
  also have "\<dots> = card (set (node_names ?G))"
    using dn by (simp add: distinct_card)
  also have "\<dots> = card (doc_name ` set docs \<union> (\<Union>d\<in>set docs. set (doc_keys d)))"
    by (simp only: nodes)
  also have "\<dots> = card (doc_name ` set docs) + card (\<Union>d\<in>set docs. set (doc_keys d))"
    using apart by (intro card_Un_disjoint) auto
  also have "card (doc_name ` set docs) = length docs"
    using names by (metis distinct_card length_map set_map)
  also have "(\<Union>d\<in>set docs. set (doc_keys d)) = set (concat (map doc_keys docs))"
    by auto
  also have "card (set (concat (map doc_keys docs))) = length (concat (map doc_keys docs))"
    using dk by (rule distinct_card)
  also have "\<dots> = sum_list (map (\<lambda>d. length (doc_keys d)) docs)"
    by (simp add: length_concat comp_def)
  finally show "length (g_nodes ?G) = length docs + sum_list (map (\<lambda>d. length (doc_keys d)) docs)" .
qed

subsection \<open>The documents that cite a key\<close>

lemma citing_of_doc:
  "distinct ks \<Longrightarrow>
   map snd (filter (\<lambda>p. fst p = c) (map (\<lambda>k. (k, n)) ks)) = (if c \<in> set ks then [n] else [])"
  by (induction ks) auto

lemma citing_filter:
  "map snd (filter (\<lambda>p. fst p = c) (key_name_pairs docs)) =
     map doc_name (filter (\<lambda>d. c \<in> set (doc_keys d)) docs)"
  by (induction docs) (simp_all add: key_name_pairs_def citing_of_doc distinct_doc_keys)

lemma filter_by_index: "filter P xs = map (nth xs) (filter (\<lambda>i. P (xs ! i)) [0..<length xs])"
proof -
  have "filter P (map (nth xs) [0..<length xs]) =
          map (nth xs) (filter (P \<circ> nth xs) [0..<length xs])"
    by (rule filter_map)
  then show ?thesis by (simp add: map_nth comp_def)
qed

lemma citing_by_index:
  "map snd (filter (\<lambda>p. fst p = c) (key_name_pairs docs)) =
     map (\<lambda>i. doc_name (docs ! i)) (citing_indices c docs)"
  unfolding citing_filter citing_indices_def
  by (subst filter_by_index) simp

lemma citing_indices_sorted: "sorted_wrt (<) (citing_indices c docs)"
  unfolding citing_indices_def by (rule sorted_wrt_filter) simp

lemma citing_indices_mem:
  "i \<in> set (citing_indices c docs) \<longleftrightarrow> i < length docs \<and> c \<in> set (doc_keys (docs ! i))"
  by (auto simp: citing_indices_def)

text \<open>The triples of the third loop, by the indices of the documents.\<close>

lemma triple_iff:
  "(u, v, c) \<in> set (network_triples docs) \<longleftrightarrow>
     (\<exists>a b. a < b \<and> b < length (citing_indices c docs) \<and>
            u = doc_name (docs ! (citing_indices c docs ! a)) \<and>
            v = doc_name (docs ! (citing_indices c docs ! b)))"
proof
  assume "(u, v, c) \<in> set (network_triples docs)"
  then obtain entry where entry: "entry \<in> set (citation_to_docs (map document_entry docs))"
    and t: "(u, v, c) \<in> set (citing_triples entry)"
    by (auto simp: network_triples_def)
  obtain c' citing where e: "entry = (c', citing)" by (cases entry)
  from t obtain a b where c: "c' = c" and ab0: "Suc a \<le> b" "b < length citing"
      "u = citing ! a" "v = citing ! b"
    by (auto simp: e citing_triples_def)
  then have ab: "a < b" "b < length citing" "u = citing ! a" "v = citing ! b"
    by simp_all
  have citing: "citing = map (\<lambda>i. doc_name (docs ! i)) (citing_indices c docs)"
    using index_entry[OF entry[unfolded e c]] by (simp add: citing_by_index)
  show "\<exists>a b. a < b \<and> b < length (citing_indices c docs) \<and>
            u = doc_name (docs ! (citing_indices c docs ! a)) \<and>
            v = doc_name (docs ! (citing_indices c docs ! b))"
    using ab unfolding citing by (intro exI[of _ a] exI[of _ b]) simp
next
  assume "\<exists>a b. a < b \<and> b < length (citing_indices c docs) \<and>
            u = doc_name (docs ! (citing_indices c docs ! a)) \<and>
            v = doc_name (docs ! (citing_indices c docs ! b))"
  then obtain a b where ab: "a < b" "b < length (citing_indices c docs)"
      and u: "u = doc_name (docs ! (citing_indices c docs ! a))"
      and v: "v = doc_name (docs ! (citing_indices c docs ! b))"
    by blast
  let ?citing = "map (\<lambda>i. doc_name (docs ! i)) (citing_indices c docs)"
  have ne: "filter (\<lambda>p. fst p = c) (key_name_pairs docs) \<noteq> []"
  proof
    assume "filter (\<lambda>p. fst p = c) (key_name_pairs docs) = []"
    then have "map snd (filter (\<lambda>p. fst p = c) (key_name_pairs docs)) = []" by simp
    then show False using ab by (simp add: citing_by_index)
  qed
  have entry: "(c, ?citing) \<in> set (citation_to_docs (map document_entry docs))"
    using index_has[OF ne] by (simp add: citing_by_index)
  have "(u, v, c) \<in> set (citing_triples (c, ?citing))"
    using ab by (auto simp: citing_triples_def u v intro!: bexI[of _ a] image_eqI[of _ _ b])
  with entry show "(u, v, c) \<in> set (network_triples docs)"
    by (auto simp: network_triples_def)
qed

subsection \<open>The edge between two documents that share a citation\<close>

lemma doc_name_index:
  assumes "distinct (map doc_name docs)" and "x < length docs" and "y < length docs"
    and "doc_name (docs ! x) = doc_name (docs ! y)"
  shows "x = y"
proof -
  have "map doc_name docs ! x = map doc_name docs ! y"
    using assms(2,3,4) by simp
  moreover have "x < length (map doc_name docs)" "y < length (map doc_name docs)"
    using assms(2,3) by simp_all
  ultimately show ?thesis
    using assms(1) nth_eq_iff_index_eq by blast
qed

lemma triple_forward:
  assumes names: "distinct (map doc_name docs)" and i: "i < length docs" and j: "j < length docs"
    and t: "(doc_name (docs ! i), doc_name (docs ! j), c) \<in> set (network_triples docs)"
  shows "i < j" and "c \<in> set (doc_keys (docs ! i))" and "c \<in> set (doc_keys (docs ! j))"
proof -
  let ?I = "citing_indices c docs"
  from t obtain a b where ab: "a < b" "b < length ?I"
      and u: "doc_name (docs ! i) = doc_name (docs ! (?I ! a))"
      and v: "doc_name (docs ! j) = doc_name (docs ! (?I ! b))"
    unfolding triple_iff by blast
  have a: "?I ! a \<in> set ?I" and b: "?I ! b \<in> set ?I"
    using ab by simp_all
  then have a': "?I ! a < length docs" "c \<in> set (doc_keys (docs ! (?I ! a)))"
    and b': "?I ! b < length docs" "c \<in> set (doc_keys (docs ! (?I ! b)))"
    by (simp_all add: citing_indices_mem)
  have ia: "i = ?I ! a" using names i a'(1) u by (rule doc_name_index)
  have jb: "j = ?I ! b" using names j b'(1) v by (rule doc_name_index)
  have "?I ! a < ?I ! b"
    using citing_indices_sorted ab by (rule sorted_wrt_nth_less)
  then show "i < j" by (simp add: ia jb)
  show "c \<in> set (doc_keys (docs ! i))" using a'(2) by (simp add: ia)
  show "c \<in> set (doc_keys (docs ! j))" using b'(2) by (simp add: jb)
qed

lemma triple_of_shared:
  assumes "i < j" and "j < length docs"
    and "c \<in> set (doc_keys (docs ! i))" and "c \<in> set (doc_keys (docs ! j))"
  shows "(doc_name (docs ! i), doc_name (docs ! j), c) \<in> set (network_triples docs)"
proof -
  let ?I = "citing_indices c docs"
  have "i \<in> set ?I" "j \<in> set ?I"
    using assms by (simp_all add: citing_indices_mem)
  then obtain a b where a: "a < length ?I" "?I ! a = i" and b: "b < length ?I" "?I ! b = j"
    by (auto simp: in_set_conv_nth)
  have "a < b"
  proof (rule ccontr)
    assume "\<not> a < b"
    then have "b = a \<or> b < a" by auto
    then show False
    proof
      assume "b = a"
      with a b assms(1) show False by simp
    next
      assume "b < a"
      with citing_indices_sorted have "?I ! b < ?I ! a"
        using a(1) by (rule sorted_wrt_nth_less)
      with a b assms(1) show False by simp
    qed
  qed
  then show ?thesis
    unfolding triple_iff using a b by (intro exI[of _ a] exI[of _ b]) simp
qed

lemma untagged_map_of:
  "untagged G \<Longrightarrow> map_of (g_edges G) k = Some y \<Longrightarrow> y = None"
  by (auto simp: untagged_def list_all_iff dest!: map_of_SomeD)

lemma shared_edge:
  assumes names: "distinct (map doc_name docs)" and ij: "i < j" and j: "j < length docs"
    and shared: "set (doc_keys (docs ! i)) \<inter> set (doc_keys (docs ! j)) \<noteq> {}"
  shows "\<exists>c\<in>set (doc_keys (docs ! i)) \<inter> set (doc_keys (docs ! j)).
           edges_from_to (build_citation_network docs) (doc_name (docs ! i)) (doc_name (docs ! j)) =
             [((doc_name (docs ! i), doc_name (docs ! j)), Some c)]"
    and "filter (\<lambda>e. snd e \<noteq> None)
           (edges_from_to (build_citation_network docs) (doc_name (docs ! j)) (doc_name (docs ! i))) = []"
proof -
  let ?G = "build_citation_network docs"
  let ?G1 = "fold document_graph docs empty_graph"
  let ?T = "network_triples docs"
  let ?E = "rev (map triple_edge ?T)"
  let ?u = "doc_name (docs ! i)" and ?v = "doc_name (docs ! j)"
  have i: "i < length docs" using ij j by simp
  have G: "?G = fold add_triple ?T ?G1"
    using names by (rule build_citation_network_eq)
  have edges: "map_of (g_edges ?G) = map_of (g_edges ?G1) ++ map_of ?E"
    unfolding G by (rule fold_add_triple_map_of)
  have "distinct (edge_keys ?G)"
    unfolding G
    by (intro fold_add_triple_distinct fold_document_graph_distinct_keys)
       (simp add: empty_graph_facts)
  then have dist: "distinct (map fst (g_edges ?G))" by (simp add: edge_keys_def)
  have G1: "untagged ?G1"
    by (intro fold_document_graph_untagged) (simp add: empty_graph_facts)
  from shared obtain c0 where c0: "c0 \<in> set (doc_keys (docs ! i))" "c0 \<in> set (doc_keys (docs ! j))"
    by auto
  have "(?u, ?v, c0) \<in> set ?T"
    using ij j c0 by (rule triple_of_shared)
  then have "((?u, ?v), Some c0) \<in> set ?E"
    by (force simp: triple_edge_def)
  then have "map_of ?E (?u, ?v) \<noteq> None"
    by (metis map_of_eq_None_iff fst_conv image_eqI)
  then obtain y where y: "map_of ?E (?u, ?v) = Some y" by auto
  then have "((?u, ?v), y) \<in> set ?E" by (rule map_of_SomeD)
  then obtain c where c: "(?u, ?v, c) \<in> set ?T" and yc: "y = Some c"
    by (auto simp: triple_edge_def)
  have cs: "c \<in> set (doc_keys (docs ! i)) \<inter> set (doc_keys (docs ! j))"
    using triple_forward(2,3)[OF names i j c] by simp
  have "map_of (g_edges ?G) (?u, ?v) = Some (Some c)"
    by (simp add: edges y yc)
  then have "edges_from_to ?G ?u ?v = [((?u, ?v), Some c)]"
    unfolding edges_from_to_def by (simp add: filter_distinct_key[OF dist])
  with cs show "\<exists>c\<in>set (doc_keys (docs ! i)) \<inter> set (doc_keys (docs ! j)).
           edges_from_to ?G ?u ?v = [((?u, ?v), Some c)]"
    by blast
  have none: "map_of ?E (?v, ?u) = None"
  proof (rule ccontr)
    assume "map_of ?E (?v, ?u) \<noteq> None"
    then obtain y where "map_of ?E (?v, ?u) = Some y" by auto
    then have "((?v, ?u), y) \<in> set ?E" by (rule map_of_SomeD)
    then obtain c where "(?v, ?u, c) \<in> set ?T"
      by (auto simp: triple_edge_def)
    from triple_forward(1)[OF names j i this] ij show False by simp
  qed
  then have rev_edge: "map_of (g_edges ?G) (?v, ?u) = map_of (g_edges ?G1) (?v, ?u)"
    by (simp add: edges map_add_def)
  show "filter (\<lambda>e. snd e \<noteq> None) (edges_from_to ?G ?v ?u) = []"
  proof (cases "map_of (g_edges ?G1) (?v, ?u)")
    case None
    then show ?thesis
      unfolding edges_from_to_def by (simp add: filter_distinct_key[OF dist] rev_edge)
  next
    case (Some y)
    from untagged_map_of[OF G1 Some] Some show ?thesis
      unfolding edges_from_to_def by (simp add: filter_distinct_key[OF dist] rev_edge)
  qed
qed

subsection \<open>The three lists of documents, evaluated\<close>

lemma two_docs_names: "map doc_name two_docs = [''d1'', ''b.txt'']"
  by code_simp

lemma two_docs_keys:
  "map doc_keys two_docs =
     [[''case_citations:AIR 1950 SC 2'', ''case_citations:AIR 1951 SC 3''],
      [''case_citations:AIR 1951 SC 3'', ''case_citations:AIR 1950 SC 2'']]"
  by code_simp

lemma two_docs_edges:
  "edges_from_to (build_citation_network two_docs) ''d1'' ''b.txt'' =
     [((''d1'', ''b.txt''), Some ''case_citations:AIR 1951 SC 3'')]"
  "edges_from_to (build_citation_network two_docs) ''b.txt'' ''d1'' = []"
  by code_simp+

lemma self_named_network:
  "build_citation_network self_named_docs =
     \<lparr> g_nodes = [(''case_citations:AIR 1950 SC 2'', Some ''document'')],
       g_edges = [((''case_citations:AIR 1950 SC 2'', ''case_citations:AIR 1950 SC 2''), None)] \<rparr>"
  by code_simp

lemma self_named_keys: "map doc_keys self_named_docs = [[''case_citations:AIR 1950 SC 2'']]"
  by code_simp

lemma self_named_names: "map doc_name self_named_docs = [''case_citations:AIR 1950 SC 2'']"
  by code_simp

lemma apart_docs_names: "map doc_name apart_docs = [''a.txt'', ''b.txt'']"
  by code_simp

lemma apart_docs_keys:
  "map doc_keys apart_docs =
     [[''case_citations:AIR 1950 SC 2''],
      [''case_citations:(2020) 5 SCC 1'', ''case_citations:AIR 1951 SC 3'']]"
  by code_simp

lemma apart_docs_nodes:
  "node_names (build_citation_network apart_docs) =
     [''a.txt'', ''case_citations:AIR 1950 SC 2'', ''b.txt'', ''case_citations:(2020) 5 SCC 1'',
      ''case_citations:AIR 1951 SC 3'']"
  by code_simp

section \<open>Claims\<close>

text \<open>
  C1. For every text, the \<open>risk_score\<close> returned by \<open>analyze_contract\<close> is the mean over
  the six scored risk categories (ambiguity, one_sided_terms, liability_issues,
  termination_risks, confidentiality_risks, ip_risks) of the capped category scores
  \<open>min(100, raw_match_count * 10)\<close>, plus \<open>min(20, 5 * missing_provision_count)\<close> where
  \<open>missing_provision_count\<close> is the length of \<open>find_missing_provisions(text)\<close>, clamped to
  100. The second conjunct ties the scores and counts to the \<open>risk_categories\<close> entries of
  the returned analysis.
\<close>

theorem C1_risk_score_formula:
  "risk_score (analyze_contract text) =
     min 100 (of_nat (sum_list (map (\<lambda>c. min 100 (raw_match_count text c * 10)) scored_categories))
                / of_nat (length scored_categories)
              + of_nat (min 20 (length (find_missing_provisions text) * 5)))
   \<and> risk_categories (analyze_contract text) =
       map (\<lambda>c. (c, \<lparr> cr_score = min 100 (raw_match_count text c * 10),
                        cr_matches = raw_match_count text c \<rparr>)) scored_categories
   \<and> length scored_categories = 6"
proof -
  have six: "length scored_categories = 6"
    by (simp add: scored_categories_def)
  have capped: "(\<lambda>c. min 100 (raw_match_count text c * 10)) = capped_score text"
    by (simp add: capped_score_def fun_eq_iff)
  show ?thesis
    unfolding capped six
    by (simp add: analyze_contract_score analyze_contract_categories capped_score_def)
qed

theorem C1_risk_score_formula_witness:
  "risk_score (analyze_contract ''may'') = 65 / 3"
proof -
  have capped: "(\<lambda>c. min 100 (raw_match_count ''may'' c * 10)) = capped_score ''may''"
    by (simp add: capped_score_def fun_eq_iff)
  have six: "length scored_categories = 6"
    by (simp add: scored_categories_def)
  from C1_risk_score_formula[of "''may''"] show ?thesis
    unfolding capped may_scores may_missing six by simp
qed

text \<open>
  C7. For every text, the \<open>risk_score\<close> returned by \<open>analyze_contract\<close> lies between 0 and
  100.
\<close>

theorem C7_risk_score_bounds:
  "0 \<le> risk_score (analyze_contract text) \<and> risk_score (analyze_contract text) \<le> 100"
  by (rule analyze_contract_bounds)

theorem C7_risk_score_bounds_witness:
  "0 \<le> risk_score (analyze_contract ''may'') \<and> risk_score (analyze_contract ''may'') \<le> 100"
  by (rule C7_risk_score_bounds)

text \<open>
  C6. For every text and every citation category, the list that \<open>extract_citations\<close>
  returns for the category holds exactly the first occurrences of the category's match
  stream, in the order of the stream: a string matched more than once appears exactly
  once, at the position of its first occurrence, and nothing is sorted.
\<close>

theorem C6_dedup_first_occurrence:
  assumes "(citation_type, patterns) \<in> set citation_patterns"
  shows "\<exists>cs. map_of (extract_citations text) citation_type = Some cs \<and>
           cs = first_occurrences (match_stream patterns text) \<and>
           (\<forall>x\<in>set (match_stream patterns text). count_list cs x = 1)"
proof -
  let ?cs = "unique_matches (match_stream patterns text)"
  have "map_of (extract_citations text) citation_type = Some ?cs"
    using assms by (rule extract_citations_lookup)
  moreover have "?cs = first_occurrences (match_stream patterns text)"
    by (rule unique_matches_first_occurrences)
  moreover have "\<forall>x\<in>set (match_stream patterns text). count_list ?cs x = 1"
    by (simp add: count_list_distinct distinct_unique_matches set_unique_matches)
  ultimately show ?thesis by blast
qed

theorem C6_dedup_first_occurrence_witness:
  "map_of (extract_citations ''(2020) 5 SCC 1 AIR 1950 SC 2 (2020) 5 SCC 1'') ''case_citations'' =
     Some [''(2020) 5 SCC 1'', ''AIR 1950 SC 2'']"
proof -
  have "(''case_citations'', case_patterns) \<in> set citation_patterns"
    by (simp add: citation_patterns_def)
  from C6_dedup_first_occurrence[OF this, of "''(2020) 5 SCC 1 AIR 1950 SC 2 (2020) 5 SCC 1''"]
  show ?thesis
    unfolding twice_stream twice_first_occurrences by auto
qed



text \<open>
  C3. For the scenario text ``This Agreement, dated January 1, 2023, is governed by the
  laws of Delaware.'' the claim says that \<open>extract_contract_details\<close> leaves
  \<open>effective_date\<close> absent while the governing law is found to be Delaware. The second
  date pattern, \<open>dated\s+(...)\<close>, is searched for anywhere in the text and matches
  ``dated January 1, 2023'', so the key is present.
\<close>

theorem C3_scenario_counterexample:
  "\<not> (effective_date (extract_contract_details scenario_text) = None \<and>
      governing_law (generate_legal_summary scenario_text) = Some ''Delaware'')"
  by (simp add: scenario_effective_date)

text \<open>
  C3, amended. For the scenario text \<open>extract_contract_details\<close> returns
  \<open>effective_date\<close> = ``January 1, 2023'', and the governing-law extraction of
  \<open>generate_legal_summary\<close> yields ``Delaware''.
\<close>

theorem C3_scenario:
  "scenario_text = ''This Agreement, dated January 1, 2023, is governed by the laws of Delaware.''
   \<and> effective_date (extract_contract_details scenario_text) = Some ''January 1, 2023''
   \<and> governing_law (generate_legal_summary scenario_text) = Some ''Delaware''"
  using scenario_effective_date scenario_governing_law scenario_text_def by blast

text \<open>
  C5. A text that contains \<open>non-disclosure\<close> as a whole word, in any letter case (the
  occurrence \<open>mid\<close> is preceded and followed by the end of the text or by a character
  that is not a word character), does not have \<open>confidentiality\<close> among its missing
  provisions, whether or not the word \<open>confidentiality\<close> itself occurs.
\<close>

theorem C5_non_disclosure_synonym:
  assumes "text = pre @ mid @ post" and "str_lower mid = ''non-disclosure''"
    and "pre = [] \<or> \<not> is_word (last pre)" and "post = [] \<or> \<not> is_word (hd post)"
  shows "''confidentiality'' \<notin> set (find_missing_provisions text)"
  using assms by (rule confidentiality_not_missing)

theorem C5_non_disclosure_synonym_witness:
  "''confidentiality'' \<notin> set (find_missing_provisions ''A Non-Disclosure deal'')"
proof -
  have "str_lower ''Non-Disclosure'' = ''non-disclosure''" by code_simp
  moreover have "\<not> is_word (last ''A '')" by code_simp
  moreover have "\<not> is_word (hd '' deal'')" by code_simp
  ultimately show ?thesis
    using C5_non_disclosure_synonym[of "''A Non-Disclosure deal''" "''A ''" "''Non-Disclosure''"
        "'' deal''"]
    by simp
qed

text \<open>
  C10. The claim says that \<open>_calculate_text_similarity\<close> returns 0 when neither text has a
  word character and the Jaccard ratio of the two word sets otherwise. The code returns
  \<open>round(intersection / union, 4)\<close>: for the texts \<open>a\<close> and \<open>a b c\<close> the ratio is
  \<open>1/3\<close> and the result is the float \<open>0.3333\<close>, which is neither the ratio nor the
  float \<open>1 / 3\<close>.
\<close>

theorem C10_ratio_counterexample:
  "calculate_text_similarity ''a'' ''a b c'' \<noteq> jaccard_ratio ''a'' ''a b c'' \<and>
   calculate_text_similarity ''a'' ''a b c'' \<noteq> float_of (jaccard_ratio ''a'' ''a b c'')"
  by (simp add: third_similarity third_ratio third_float)

text \<open>
  C10, amended. When neither text contains a word character the result is 0 (no division
  takes place). Otherwise the union of the word sets is not empty and the result is
  \<open>round(intersection / union, 4)\<close>: the Jaccard ratio of the lowercased word sets,
  divided as a float and rounded to four decimal places. The ratio and the result lie in
  \<open>[0, 1]\<close>, and they differ by at most \<open>0.00005 + 2 ^ -52\<close>.
\<close>

theorem C10_text_similarity:
  "((\<forall>c\<in>set text1 \<union> set text2. \<not> is_word c) \<longrightarrow>
      calculate_text_similarity text1 text2 = 0) \<and>
   ((\<exists>c\<in>set text1 \<union> set text2. is_word c) \<longrightarrow>
      word_set text1 \<union> word_set text2 \<noteq> {} \<and>
      calculate_text_similarity text1 text2 = round4 (float_of (jaccard_ratio text1 text2)) \<and>
      0 \<le> jaccard_ratio text1 text2 \<and> jaccard_ratio text1 text2 \<le> 1 \<and>
      0 \<le> calculate_text_similarity text1 text2 \<and>
      calculate_text_similarity text1 text2 \<le> 1 \<and>
      \<bar>calculate_text_similarity text1 text2 - jaccard_ratio text1 text2\<bar>
        \<le> 1 / 20000 + 1 / 2 ^ 52)"
proof (intro conjI impI)
  assume "\<forall>c\<in>set text1 \<union> set text2. \<not> is_word c"
  then show "calculate_text_similarity text1 text2 = 0"
    by (rule text_similarity_no_words)
next
  assume w: "\<exists>c\<in>set text1 \<union> set text2. is_word c"
  note r = text_similarity_words[OF w]
  note f = float_of_bounds[OF r(2,3)]
  show "word_set text1 \<union> word_set text2 \<noteq> {}"
    using w word_set_nonempty by auto
  show "calculate_text_similarity text1 text2 = round4 (float_of (jaccard_ratio text1 text2))"
    by (rule r(1))
  show "0 \<le> jaccard_ratio text1 text2" by (rule r(2))
  show "jaccard_ratio text1 text2 \<le> 1" by (rule r(3))
  show "0 \<le> calculate_text_similarity text1 text2"
    unfolding r(1) using f by (rule round4_bounds(1))
  show "calculate_text_similarity text1 text2 \<le> 1"
    unfolding r(1) using f by (rule round4_bounds(2))
  show "\<bar>calculate_text_similarity text1 text2 - jaccard_ratio text1 text2\<bar>
          \<le> 1 / 20000 + 1 / 2 ^ 52"
    unfolding r(1) using r(2,3) by (rule round4_true_div_near)
qed

theorem C10_text_similarity_witness:
  "calculate_text_similarity ''., ;'' [] = 0 \<and>
   calculate_text_similarity ''a'' ''a b c'' = float_of (3333 / 10000) \<and>
   calculate_text_similarity ''a'' ''a b c'' \<le> 1"
proof -
  have none: "\<forall>c\<in>set ''., ;'' \<union> set []. \<not> is_word c"
    by code_simp
  have some: "\<exists>c\<in>set ''a'' \<union> set ''a b c''. is_word c"
    by code_simp
  from C10_text_similarity[of "''., ;''" "[]"] none
  have "calculate_text_similarity ''., ;'' [] = 0" by blast
  moreover from C10_text_similarity[of "''a''" "''a b c''"] some
  have "calculate_text_similarity ''a'' ''a b c'' =
          round4 (float_of (jaccard_ratio ''a'' ''a b c'')) \<and>
        calculate_text_similarity ''a'' ''a b c'' \<le> 1"
    by blast
  ultimately show ?thesis by (simp add: third_ratio third_rounded)
qed

text \<open>
  C2. The claim says that two documents that share \<open>k \<ge> 2\<close> citation keys are joined by
  \<open>k\<close> parallel co-citation edges, one for each shared key. The graph is an
  \<open>nx.DiGraph\<close>, which keeps one edge for an ordered pair of nodes: the second
  \<open>add_edge\<close> for the pair overwrites the attribute \<open>shared\<close> of the first. The
  documents of \<open>two_docs\<close> share two keys and are joined by one edge.
\<close>

theorem C2_parallel_edges_counterexample:
  "map doc_name two_docs = [''d1'', ''b.txt''] \<and>
   card (set (doc_keys (two_docs ! 0)) \<inter> set (doc_keys (two_docs ! 1))) = 2 \<and>
   edges_from_to (build_citation_network two_docs) ''d1'' ''b.txt'' =
     [((''d1'', ''b.txt''), Some ''case_citations:AIR 1951 SC 3'')] \<and>
   edges_from_to (build_citation_network two_docs) ''b.txt'' ''d1'' = []"
proof -
  have "doc_keys (two_docs ! 0) = map doc_keys two_docs ! 0"
       "doc_keys (two_docs ! 1) = map doc_keys two_docs ! 1"
    by (simp_all add: two_docs_def)
  then have "card (set (doc_keys (two_docs ! 0)) \<inter> set (doc_keys (two_docs ! 1))) = 2"
    unfolding two_docs_keys by (simp add: insert_commute)
  then show ?thesis
    by (simp add: two_docs_names two_docs_edges)
qed

text \<open>
  C2, amended. In a list of documents with pairwise distinct names, let the document at
  index \<open>i\<close> come before the one at index \<open>j\<close> and let the two share at least one
  citation key. Then the graph has exactly one edge from the first document to the
  second, whatever the number of shared keys, and its attribute \<open>shared\<close> is one of the
  shared keys; no co-citation edge leads from the second document back to the first.
\<close>

theorem C2_one_co_citation_edge:
  assumes "distinct (map doc_name docs)" and "i < j" and "j < length docs"
    and "set (doc_keys (docs ! i)) \<inter> set (doc_keys (docs ! j)) \<noteq> {}"
  shows "(\<exists>c\<in>set (doc_keys (docs ! i)) \<inter> set (doc_keys (docs ! j)).
            edges_from_to (build_citation_network docs) (doc_name (docs ! i)) (doc_name (docs ! j)) =
              [((doc_name (docs ! i), doc_name (docs ! j)), Some c)]) \<and>
         filter (\<lambda>e. snd e \<noteq> None)
           (edges_from_to (build_citation_network docs) (doc_name (docs ! j)) (doc_name (docs ! i))) = []"
  using shared_edge[OF assms] by blast

theorem C2_one_co_citation_edge_witness:
  "\<exists>c\<in>{''case_citations:AIR 1950 SC 2'', ''case_citations:AIR 1951 SC 3''}.
     edges_from_to (build_citation_network two_docs) ''d1'' ''b.txt'' = [((''d1'', ''b.txt''), Some c)]"
proof -
  have names: "doc_name (two_docs ! 0) = map doc_name two_docs ! 0"
       "doc_name (two_docs ! 1) = map doc_name two_docs ! 1"
    by (simp_all add: two_docs_def)
  have keys: "doc_keys (two_docs ! 0) = map doc_keys two_docs ! 0"
       "doc_keys (two_docs ! 1) = map doc_keys two_docs ! 1"
    by (simp_all add: two_docs_def)
  have "distinct (map doc_name two_docs)"
    by (simp add: two_docs_names)
  moreover have "(0::nat) < 1" by simp
  moreover have "1 < length two_docs" by (simp add: two_docs_def)
  moreover have "set (doc_keys (two_docs ! 0)) \<inter> set (doc_keys (two_docs ! 1)) \<noteq> {}"
    unfolding keys two_docs_keys by simp
  ultimately show ?thesis
    using C2_one_co_citation_edge[of two_docs 0 1]
    unfolding names keys two_docs_names two_docs_keys by auto
qed

text \<open>
  C4. The claim says that documents with pairwise distinct names and without a shared
  citation key give a graph with one node for every document and one for every citation
  key of every document. A document may bear the name of a citation key that it cites:
  then the citation node is the document node, and the edge is a loop. The one document
  of \<open>self_named_docs\<close> cites one case and gives a graph of one node, not two.
\<close>

theorem C4_node_count_counterexample:
  "distinct (map doc_name self_named_docs) \<and>
   length self_named_docs = 1 \<and>
   map (\<lambda>d. length (doc_keys d)) self_named_docs = [1] \<and>
   length (g_nodes (build_citation_network self_named_docs)) = 1 \<and>
   length (g_nodes (build_citation_network self_named_docs)) \<noteq>
     length self_named_docs + sum_list (map (\<lambda>d. length (doc_keys d)) self_named_docs) \<and>
   edge_keys (build_citation_network self_named_docs) =
     [(''case_citations:AIR 1950 SC 2'', ''case_citations:AIR 1950 SC 2'')]"
proof -
  have "map (\<lambda>d. length (doc_keys d)) self_named_docs = map length (map doc_keys self_named_docs)"
    by simp
  then have "map (\<lambda>d. length (doc_keys d)) self_named_docs = [1]"
    unfolding self_named_keys by simp
  then show ?thesis
    by (simp add: self_named_network self_named_names edge_keys_def) (simp add: self_named_docs_def)
qed

text \<open>
  C4, amended. Let the documents have pairwise distinct names, let no two of them share a
  citation key, and let no name of a document be a citation key of a document. Then the
  nodes of the graph are the names of the documents and the citation keys of the
  documents, each once; their number is the number of documents plus the sum of the
  numbers of citation keys of the documents (the keys of one document are distinct);
  there is no co-citation edge, and every edge leads from a document to a citation key,
  never to a document.
\<close>

theorem C4_no_shared_citations:
  assumes "distinct (map doc_name docs)"
    and "\<forall>i j. i < j \<and> j < length docs \<longrightarrow>
           set (doc_keys (docs ! i)) \<inter> set (doc_keys (docs ! j)) = {}"
    and "doc_name ` set docs \<inter> (\<Union>d\<in>set docs. set (doc_keys d)) = {}"
  shows "set (node_names (build_citation_network docs)) =
           doc_name ` set docs \<union> (\<Union>d\<in>set docs. set (doc_keys d)) \<and>
         distinct (node_names (build_citation_network docs)) \<and>
         length (g_nodes (build_citation_network docs)) =
           length docs + sum_list (map (\<lambda>d. length (doc_keys d)) docs) \<and>
         (\<forall>d\<in>set docs. distinct (doc_keys d)) \<and>
         co_citation_edges (build_citation_network docs) = [] \<and>
         (\<forall>e\<in>set (g_edges (build_citation_network docs)).
            fst (fst e) \<in> doc_name ` set docs \<and> snd (fst e) \<notin> doc_name ` set docs)"
proof -
  note n = no_shared_network[OF assms]
  have "fst (fst e) \<in> doc_name ` set docs \<and> snd (fst e) \<notin> doc_name ` set docs"
    if "e \<in> set (g_edges (build_citation_network docs))" for e
  proof -
    from that have "fst e \<in> set (edge_keys (build_citation_network docs))"
      by (simp add: edge_keys_def)
    then obtain d k where "d \<in> set docs" "k \<in> set (doc_keys d)" "fst e = (doc_name d, k)"
      unfolding n(5) by auto
    then show ?thesis using assms(3) by auto
  qed
  then show ?thesis
    using n(1,2,3,4) by (simp add: distinct_doc_keys)
qed

theorem C4_no_shared_citations_witness:
  "length (g_nodes (build_citation_network apart_docs)) = 2 + (1 + 2) \<and>
   co_citation_edges (build_citation_network apart_docs) = []"
proof -
  have len: "length apart_docs = 2"
    by (simp add: apart_docs_def)
  have nth: "doc_keys (apart_docs ! 0) = map doc_keys apart_docs ! 0"
       "doc_keys (apart_docs ! 1) = map doc_keys apart_docs ! 1"
    by (simp_all add: apart_docs_def)
  have names: "distinct (map doc_name apart_docs)"
    by (simp add: apart_docs_names)
  have keys: "\<forall>i j. i < j \<and> j < length apart_docs \<longrightarrow>
           set (doc_keys (apart_docs ! i)) \<inter> set (doc_keys (apart_docs ! j)) = {}"
  proof (intro allI impI)
    fix i j :: nat
    assume "i < j \<and> j < length apart_docs"
    then have "i = 0" "j = 1" using len by auto
    then show "set (doc_keys (apart_docs ! i)) \<inter> set (doc_keys (apart_docs ! j)) = {}"
      unfolding nth \<open>i = 0\<close> \<open>j = 1\<close> apart_docs_keys by simp
  qed
  have "doc_name ` set apart_docs = set (map doc_name apart_docs)"
    and "(\<Union>d\<in>set apart_docs. set (doc_keys d)) = set (concat (map doc_keys apart_docs))"
    by auto
  then have apart: "doc_name ` set apart_docs \<inter> (\<Union>d\<in>set apart_docs. set (doc_keys d)) = {}"
    unfolding apart_docs_names apart_docs_keys by simp
  have sum: "sum_list (map (\<lambda>d. length (doc_keys d)) apart_docs) =
               sum_list (map length (map doc_keys apart_docs))"
    by (simp add: comp_def)
  from C4_no_shared_citations[OF names keys apart] show ?thesis
    unfolding sum apart_docs_keys len by simp
qed

end
